theory Spec2Isabelle
  imports Complex_Main "HOL-Library.Sublist"
begin

section \<open>The hand tracker of src/App.tsx\<close>

text \<open>
  The tracker is the body of \<^verbatim>\<open>processTracking\<close> (src/App.tsx, lines 356 to 456): it
  turns the previous list of tracked hands (\<^verbatim>\<open>trackedHandsRef.current\<close>) and the
  detections of the current video frame into the next list of tracked hands.

  Lines 343 to 354, the guard on the video element and the construction of the detection
  list from the landmarks of the perception model, are not modelled: the detections are an
  argument of the tick, and a tick with no new video frame is a tick with no detections.

  JavaScript numbers are modelled as follows: coordinates, velocities and \<^verbatim>\<open>alpha\<close> are
  reals (the inputs are finite numbers, and rounding of doubles is not modelled); the two frame counters only ever hold the
  values 0, 1, 2, ... and are naturals; an id is \<^verbatim>\<open>Date.now() + idx\<close>, an integer number of
  milliseconds. The tick reads the clock, \<^verbatim>\<open>Date.now()\<close>, once for every track it creates
  (line 443, inside the second loop). The readings are an explicit argument \<open>now\<close> of the
  tick: \<open>now idx\<close> is the value \<^verbatim>\<open>Date.now()\<close> returns when the second loop creates the
  track for the detection at index \<open>idx\<close>. Two readings of one tick need not be equal. The field \<^verbatim>\<open>id\<close> is called \<open>hand_id\<close>, since \<open>id\<close> is the
  identity function of HOL.
\<close>

subsection \<open>Data (src/types.ts, src/App.tsx lines 13 to 31)\<close>

datatype Side = Left | Right

record HandData =
  x :: real
  y :: real
  side :: Side

record TrackedHand = HandData +
  hand_id :: int
  alpha :: real
  framesMissing :: nat
  framesDetected :: nat
  vx :: real
  vy :: real

definition PERSISTENCE_FRAMES :: nat where
  "PERSISTENCE_FRAMES = 20"

definition MAX_MATCH_DIST :: real where
  "MAX_MATCH_DIST = 350"

definition GRACE_PERIOD :: nat where
  "GRACE_PERIOD = 5"

definition MIN_SMOOTHING :: real where
  "MIN_SMOOTHING = 0.15"

definition MAX_SMOOTHING :: real where
  "MAX_SMOOTHING = 0.8"

subsection \<open>Association (lines 361 to 382)\<close>

text \<open>
  Lines 363 to 376: the distance of a detection to the predicted position of a hand,
  weighted by \<^verbatim>\<open>sideBonus\<close>.
\<close>

definition weightedDist :: "TrackedHand \<Rightarrow> HandData \<Rightarrow> real" where
  "weightedDist hand det =
     (let predX = x hand + vx hand * 0.8;
          predY = y hand + vy hand * 0.8;
          d = sqrt ((x det - predX)\<^sup>2 + (y det - predY)\<^sup>2);
          sideBonus = (if side hand = side det then 0.6 else 1.0)
      in d * sideBonus)"

text \<open>
  Lines 370 to 382: the inner \<^verbatim>\<open>detections.forEach((det, idx) => ...)\<close>. The loop state is
  the pair \<^verbatim>\<open>(bestIdx, bestDist)\<close>; \<^verbatim>\<open>bestIdx = -1\<close> is \<open>None\<close>. The argument \<open>idx\<close> is
  the index of the first detection of the remaining list.
\<close>

fun findBest ::
  "TrackedHand \<Rightarrow> nat set \<Rightarrow> nat \<Rightarrow> HandData list \<Rightarrow> nat option \<times> real \<Rightarrow> nat option \<times> real"
where
  "findBest hand usedDetections idx [] best = best"
| "findBest hand usedDetections idx (det # rest) (bestIdx, bestDist) =
     (if idx \<in> usedDetections
      then findBest hand usedDetections (Suc idx) rest (bestIdx, bestDist)
      else if weightedDist hand det < bestDist
        then findBest hand usedDetections (Suc idx) rest (Some idx, weightedDist hand det)
        else findBest hand usedDetections (Suc idx) rest (bestIdx, bestDist))"

text \<open>Lines 366 to 382: \<^verbatim>\<open>bestIdx\<close> after the loop, started at \<^verbatim>\<open>(-1, MAX_MATCH_DIST)\<close>.\<close>

definition bestMatch :: "TrackedHand \<Rightarrow> nat set \<Rightarrow> HandData list \<Rightarrow> nat option" where
  "bestMatch hand usedDetections detections =
     fst (findBest hand usedDetections 0 detections (None, MAX_MATCH_DIST))"

subsection \<open>The three kinds of hand pushed to \<^verbatim>\<open>nextHands\<close>\<close>

text \<open>Lines 391 to 411: the hand pushed for a successful match.\<close>

definition matchedHand :: "TrackedHand \<Rightarrow> HandData \<Rightarrow> TrackedHand" where
  "matchedHand hand det =
     (let moveDist = sqrt ((x det - x hand)\<^sup>2 + (y det - y hand)\<^sup>2);
          adaptiveAlpha =
            MIN_SMOOTHING + (min moveDist 150 / 150) * (MAX_SMOOTHING - MIN_SMOOTHING);
          smoothX = x hand + (x det - x hand) * adaptiveAlpha;
          smoothY = y hand + (y det - y hand) * adaptiveAlpha
      in hand\<lparr> x := smoothX, y := smoothY,
               vx := smoothX - x hand, vy := smoothY - y hand,
               framesMissing := 0, alpha := 1,
               framesDetected := framesDetected hand + 1,
               side := side det \<rparr>)"

text \<open>Lines 414 to 435: the hand pushed for a lost hand that is kept.\<close>

definition missingHand :: "TrackedHand \<Rightarrow> TrackedHand" where
  "missingHand hand =
     (let damping = 0.9;
          nextVx = vx hand * damping;
          nextVy = vy hand * damping;
          nextFramesMissing = framesMissing hand + 1;
          newAlpha = (if nextFramesMissing > GRACE_PERIOD
                      then max 0 (alpha hand - 0.1) else alpha hand)
      in hand\<lparr> x := x hand + nextVx, y := y hand + nextVy,
               vx := nextVx, vy := nextVy,
               framesMissing := nextFramesMissing,
               framesDetected := framesDetected hand,
               alpha := newAlpha \<rparr>)"

text \<open>
  Lines 442 to 452: the hand pushed for a detection nobody claimed; \<open>now\<close> is the value of
  \<^verbatim>\<open>Date.now()\<close> at line 443.
\<close>

definition newHand :: "int \<Rightarrow> nat \<Rightarrow> HandData \<Rightarrow> TrackedHand" where
  "newHand now idx det =
     \<lparr> x = x det, y = y det, side = side det,
       hand_id = now + int idx, alpha = 1,
       framesMissing = 0, framesDetected = 1, vx = 0, vy = 0 \<rparr>"

subsection \<open>The two loops of the tick\<close>

text \<open>
  Lines 361 to 437: the body of \<^verbatim>\<open>trackedHandsRef.current.forEach(hand => ...)\<close>, as a step
  on the pair \<^verbatim>\<open>(nextHands, usedDetections)\<close>. \<^verbatim>\<open>detections[bestIdx]\<close> is in range, since
  \<^verbatim>\<open>bestIdx\<close> is an index the inner loop has visited.
\<close>

fun stepHand ::
  "HandData list \<Rightarrow> TrackedHand list \<times> nat set \<Rightarrow> TrackedHand \<Rightarrow> TrackedHand list \<times> nat set"
where
  "stepHand detections (nextHands, usedDetections) hand =
     (case bestMatch hand usedDetections detections of
        Some bestIdx \<Rightarrow>
          (nextHands @ [matchedHand hand (detections ! bestIdx)],
           insert bestIdx usedDetections)
      | None \<Rightarrow>
          if framesMissing hand < PERSISTENCE_FRAMES
          then (nextHands @ [missingHand hand], usedDetections)
          else (nextHands, usedDetections))"

text \<open>
  Lines 440 to 454: the second \<^verbatim>\<open>detections.forEach((det, idx) => ...)\<close>; the result is
  the list of hands it pushes, in the order it pushes them. The clock is read once for
  each hand pushed, at \<open>now idx\<close>.
\<close>

fun newHands :: "(nat \<Rightarrow> int) \<Rightarrow> nat set \<Rightarrow> nat \<Rightarrow> HandData list \<Rightarrow> TrackedHand list" where
  "newHands now usedDetections idx [] = []"
| "newHands now usedDetections idx (det # rest) =
     (if idx \<notin> usedDetections
      then newHand (now idx) idx det # newHands now usedDetections (Suc idx) rest
      else newHands now usedDetections (Suc idx) rest)"

text \<open>
  Lines 357 to 456: one tick. The result is the value assigned to
  \<^verbatim>\<open>trackedHandsRef.current\<close>.
\<close>

definition processTracking ::
  "(nat \<Rightarrow> int) \<Rightarrow> TrackedHand list \<Rightarrow> HandData list \<Rightarrow> TrackedHand list"
where
  "processTracking now hands detections =
     (case foldl (stepHand detections) ([], {}) hands of
        (nextHands, usedDetections) \<Rightarrow> nextHands @ newHands now usedDetections 0 detections)"

text \<open>
  A run of the tracker: the ticks of a list of frames, each frame with the clock readings
  and the detections of its tick, from a given store. The tracker starts from the empty
  store (line 45).
\<close>

definition run ::
  "TrackedHand list \<Rightarrow> ((nat \<Rightarrow> int) \<times> HandData list) list \<Rightarrow> TrackedHand list"
where
  "run hands frames = foldl (\<lambda>hs (now, detections). processTracking now hs detections) hands frames"

subsection \<open>Views of the first loop, used to state what a tick does\<close>

text \<open>The values of the entries of a list that hold one, in order.\<close>

fun somes :: "'a option list \<Rightarrow> 'a list" where
  "somes [] = []"
| "somes (None # rest) = somes rest"
| "somes (Some v # rest) = v # somes rest"

text \<open>
  The value of \<^verbatim>\<open>bestIdx\<close> at line 384 for each hand of the store, in the order the
  first loop visits them; \<open>None\<close> is \<^verbatim>\<open>-1\<close>, the hand found no detection. The set is
  \<^verbatim>\<open>usedDetections\<close> when the loop reaches the first hand of the list.
\<close>

fun matches :: "HandData list \<Rightarrow> nat set \<Rightarrow> TrackedHand list \<Rightarrow> nat option list" where
  "matches detections usedDetections [] = []"
| "matches detections usedDetections (hand # rest) =
     (case bestMatch hand usedDetections detections of
        Some bestIdx \<Rightarrow>
          Some bestIdx # matches detections (insert bestIdx usedDetections) rest
      | None \<Rightarrow> None # matches detections usedDetections rest)"

text \<open>
  What lines 384 to 436 push for a hand, given its \<^verbatim>\<open>bestIdx\<close>: \<open>None\<close> when nothing is
  pushed, and the hand is thereby dropped from the store.
\<close>

definition outcome :: "HandData list \<Rightarrow> TrackedHand \<Rightarrow> nat option \<Rightarrow> TrackedHand option" where
  "outcome detections hand m =
     (case m of
        Some bestIdx \<Rightarrow> Some (matchedHand hand (detections ! bestIdx))
      | None \<Rightarrow>
          if framesMissing hand < PERSISTENCE_FRAMES then Some (missingHand hand) else None)"

definition outcomes :: "HandData list \<Rightarrow> nat set \<Rightarrow> TrackedHand list \<Rightarrow> TrackedHand option list" where
  "outcomes detections usedDetections hands =
     map2 (outcome detections) hands (matches detections usedDetections hands)"

subsection \<open>Reference definitions, in the words of the specification\<close>

text \<open>Linear interpolation from \<open>a\<close> toward \<open>b\<close> by \<open>t\<close>.\<close>

definition lerp :: "real \<Rightarrow> real \<Rightarrow> real \<Rightarrow> real" where
  "lerp a b t = (1 - t) * a + t * b"

text \<open>The Euclidean distance of two points.\<close>

definition euclid :: "real \<times> real \<Rightarrow> real \<times> real \<Rightarrow> real" where
  "euclid p q = sqrt ((fst p - fst q)\<^sup>2 + (snd p - snd q)\<^sup>2)"

text \<open>
  Specification 4.3 and 4.4, a matched track: the smoothing factor grows with the distance
  moved, from 0.15 to 0.8 at 150 units and beyond.
\<close>

definition spec_adaptiveAlpha :: "real \<Rightarrow> real" where
  "spec_adaptiveAlpha moveDist = 0.15 + (min moveDist 150 / 150) * (0.8 - 0.15)"

definition spec_matched :: "TrackedHand \<Rightarrow> HandData \<Rightarrow> TrackedHand" where
  "spec_matched track det =
     (let a = spec_adaptiveAlpha (euclid (x det, y det) (x track, y track));
          newX = lerp (x track) (x det) a;
          newY = lerp (y track) (y det) a
      in \<lparr> x = newX, y = newY, side = side det,
           hand_id = hand_id track, alpha = 1,
           framesMissing = 0, framesDetected = framesDetected track + 1,
           vx = newX - x track, vy = newY - y track \<rparr>)"

text \<open>
  Specification 4.1 and 4.2: the distance of a detection to the predicted position of a
  track, times the side factor.
\<close>

definition spec_weightedDist :: "TrackedHand \<Rightarrow> HandData \<Rightarrow> real" where
  "spec_weightedDist track det =
     euclid (x det, y det) (x track + vx track * 0.8, y track + vy track * 0.8)
       * (if side det = side track then 0.6 else 1)"

text \<open>
  Specification 4.4, the missing branch: the track coasts, and fades once the miss streak
  has passed the grace period.
\<close>

definition spec_missing :: "TrackedHand \<Rightarrow> TrackedHand" where
  "spec_missing track =
     \<lparr> x = x track + vx track * 0.9, y = y track + vy track * 0.9, side = side track,
       hand_id = hand_id track,
       alpha = (if framesMissing track + 1 > 5 then max 0 (alpha track - 0.1)
                else alpha track),
       framesMissing = framesMissing track + 1, framesDetected = framesDetected track,
       vx = vx track * 0.9, vy = vy track * 0.9 \<rparr>"

subsection \<open>Tracks with the tick of their creation\<close>

text \<open>
  A tick on a store whose tracks are labelled with the number of the tick that created
  them: a track the first loop keeps keeps its label, a track the second loop creates is
  labelled with the number \<open>t\<close> of the current tick. Forgetting the labels gives
  \<open>processTracking\<close> (lemma \<open>agedTick_erase\<close>).
\<close>

definition agedTick ::
  "nat \<Rightarrow> (nat \<Rightarrow> int) \<Rightarrow> (nat \<times> TrackedHand) list \<Rightarrow> HandData list
     \<Rightarrow> (nat \<times> TrackedHand) list"
where
  "agedTick t now store detections =
     (let ms = matches detections {} (map snd store) in
      somes (map2 (\<lambda>(born, hand) m. map_option (Pair born) (outcome detections hand m)) store ms)
        @ map (Pair t) (newHands now (set (somes ms)) 0 detections))"

fun agedRun ::
  "nat \<Rightarrow> (nat \<times> TrackedHand) list \<Rightarrow> ((nat \<Rightarrow> int) \<times> HandData list) list
     \<Rightarrow> (nat \<times> TrackedHand) list"
where
  "agedRun t store [] = store"
| "agedRun t store ((now, detections) # frames) =
     agedRun (Suc t) (agedTick t now store detections) frames"

subsection \<open>Sample data\<close>

text \<open>A clock that reads \<open>r\<close> at every creation of a tick.\<close>

definition steady :: "int \<Rightarrow> nat \<Rightarrow> int" where
  "steady r = (\<lambda>idx. r)"

text \<open>
  Two detections far apart, and the tracks the tracker creates for them at the clock
  readings 1000 and 1001.
\<close>

definition det_a :: HandData where
  "det_a = \<lparr> x = 100, y = 100, side = Left \<rparr>"

definition det_b :: HandData where
  "det_b = \<lparr> x = 1000, y = 100, side = Right \<rparr>"

definition hand_a :: TrackedHand where
  "hand_a = \<lparr> x = 100, y = 100, side = Left, hand_id = 1000, alpha = 1,
              framesMissing = 0, framesDetected = 1, vx = 0, vy = 0 \<rparr>"

definition hand_b :: TrackedHand where
  "hand_b = \<lparr> x = 1000, y = 100, side = Right, hand_id = 1001, alpha = 1,
              framesMissing = 0, framesDetected = 1, vx = 0, vy = 0 \<rparr>"

section \<open>Properties\<close>

subsection \<open>The inner loop finds the first unused detection of least weighted distance\<close>

lemma findBest_snd_le: "snd (findBest hand used k ds (b, d)) \<le> d"
proof (induction ds arbitrary: k b d)
  case Nil
  show ?case by simp
next
  case (Cons det rest)
  have a: "snd (findBest hand used (Suc k) rest (b, d)) \<le> d" by (rule Cons.IH)
  have c: "snd (findBest hand used (Suc k) rest (Some k, weightedDist hand det))
             \<le> weightedDist hand det" by (rule Cons.IH)
  show ?case using a c by auto
qed

lemma findBest_lower:
  "j < length ds \<Longrightarrow> k + j \<notin> used \<Longrightarrow>
   snd (findBest hand used k ds (b, d)) \<le> weightedDist hand (ds ! j)"
proof (induction ds arbitrary: k b d j)
  case Nil
  then show ?case by simp
next
  case (Cons det rest)
  show ?case
  proof (cases j)
    case 0
    with Cons.prems have k: "k \<notin> used" by simp
    have a: "snd (findBest hand used (Suc k) rest (b, d)) \<le> d"
      by (rule findBest_snd_le)
    have c: "snd (findBest hand used (Suc k) rest (Some k, weightedDist hand det))
               \<le> weightedDist hand det" by (rule findBest_snd_le)
    show ?thesis using 0 k a c by auto
  next
    case (Suc j')
    with Cons.prems have "j' < length rest" "Suc k + j' \<notin> used" by simp_all
    from Cons.IH[OF this] show ?thesis using Suc by simp
  qed
qed

lemma findBest_cases:
  "findBest hand used k ds (b, d) = (b, d) \<or>
   (\<exists>j<length ds. k + j \<notin> used \<and> weightedDist hand (ds ! j) < d \<and>
      findBest hand used k ds (b, d) = (Some (k + j), weightedDist hand (ds ! j)))"
proof (induction ds arbitrary: k b d)
  case Nil
  then show ?case by simp
next
  case (Cons det rest)
  let ?w = "weightedDist hand det"
  show ?case
  proof (cases "k \<notin> used \<and> ?w < d")
    case False
    then have eq: "findBest hand used k (det # rest) (b, d) = findBest hand used (Suc k) rest (b, d)"
      by auto
    from Cons.IH[of "Suc k" b d] show ?thesis
    proof
      assume "findBest hand used (Suc k) rest (b, d) = (b, d)"
      with eq show ?thesis by simp
    next
      assume "\<exists>j<length rest. Suc k + j \<notin> used \<and> weightedDist hand (rest ! j) < d \<and>
        findBest hand used (Suc k) rest (b, d) = (Some (Suc k + j), weightedDist hand (rest ! j))"
      then obtain j where j: "j < length rest" "Suc k + j \<notin> used"
        "weightedDist hand (rest ! j) < d"
        "findBest hand used (Suc k) rest (b, d) = (Some (Suc k + j), weightedDist hand (rest ! j))"
        by blast
      have "Suc j < length (det # rest) \<and> k + Suc j \<notin> used \<and>
            weightedDist hand ((det # rest) ! Suc j) < d \<and>
            findBest hand used k (det # rest) (b, d) =
              (Some (k + Suc j), weightedDist hand ((det # rest) ! Suc j))"
        using j eq by simp
      then show ?thesis by blast
    qed
  next
    case True
    then have eq: "findBest hand used k (det # rest) (b, d) =
                   findBest hand used (Suc k) rest (Some k, ?w)"
      by simp
    from Cons.IH[of "Suc k" "Some k" ?w] show ?thesis
    proof
      assume "findBest hand used (Suc k) rest (Some k, ?w) = (Some k, ?w)"
      then have "0 < length (det # rest) \<and> k + 0 \<notin> used \<and>
            weightedDist hand ((det # rest) ! 0) < d \<and>
            findBest hand used k (det # rest) (b, d) =
              (Some (k + 0), weightedDist hand ((det # rest) ! 0))"
        using True eq by simp
      then show ?thesis by blast
    next
      assume "\<exists>j<length rest. Suc k + j \<notin> used \<and> weightedDist hand (rest ! j) < ?w \<and>
        findBest hand used (Suc k) rest (Some k, ?w) =
          (Some (Suc k + j), weightedDist hand (rest ! j))"
      then obtain j where j: "j < length rest" "Suc k + j \<notin> used"
        "weightedDist hand (rest ! j) < ?w"
        "findBest hand used (Suc k) rest (Some k, ?w) =
           (Some (Suc k + j), weightedDist hand (rest ! j))"
        by blast
      have "Suc j < length (det # rest) \<and> k + Suc j \<notin> used \<and>
            weightedDist hand ((det # rest) ! Suc j) < d \<and>
            findBest hand used k (det # rest) (b, d) =
              (Some (k + Suc j), weightedDist hand ((det # rest) ! Suc j))"
        using j eq True by simp
      then show ?thesis by blast
    qed
  qed
qed

lemma bestMatch_Some:
  assumes "bestMatch hand used ds = Some i"
  shows "i < length ds" and "i \<notin> used" and "weightedDist hand (ds ! i) < MAX_MATCH_DIST"
    and "\<And>j. j < length ds \<Longrightarrow> j \<notin> used \<Longrightarrow> weightedDist hand (ds ! i) \<le> weightedDist hand (ds ! j)"
proof -
  let ?r = "findBest hand used 0 ds (None, MAX_MATCH_DIST)"
  from assms have f: "fst ?r = Some i" by (simp add: bestMatch_def)
  from findBest_cases[of hand used 0 ds None MAX_MATCH_DIST] f
  obtain j where j: "j < length ds" "j \<notin> used" "weightedDist hand (ds ! j) < MAX_MATCH_DIST"
    "?r = (Some j, weightedDist hand (ds ! j))"
    by auto
  with f have ij: "i = j" by simp
  show "i < length ds" "i \<notin> used" "weightedDist hand (ds ! i) < MAX_MATCH_DIST"
    using j ij by simp_all
  fix j' assume "j' < length ds" "j' \<notin> used"
  then have "snd ?r \<le> weightedDist hand (ds ! j')"
    using findBest_lower[of j' ds 0 used hand None MAX_MATCH_DIST] by simp
  then show "weightedDist hand (ds ! i) \<le> weightedDist hand (ds ! j')"
    using j ij by simp
qed

lemma bestMatch_None_iff:
  "bestMatch hand used ds = None \<longleftrightarrow>
   (\<forall>j<length ds. j \<notin> used \<longrightarrow> MAX_MATCH_DIST \<le> weightedDist hand (ds ! j))"
proof
  assume n: "bestMatch hand used ds = None"
  let ?r = "findBest hand used 0 ds (None, MAX_MATCH_DIST)"
  from n have f: "fst ?r = None" by (simp add: bestMatch_def)
  from findBest_cases[of hand used 0 ds None MAX_MATCH_DIST] f
  have r: "?r = (None, MAX_MATCH_DIST)" by auto
  show "\<forall>j<length ds. j \<notin> used \<longrightarrow> MAX_MATCH_DIST \<le> weightedDist hand (ds ! j)"
  proof (intro allI impI)
    fix j assume "j < length ds" "j \<notin> used"
    then have "snd ?r \<le> weightedDist hand (ds ! j)"
      using findBest_lower[of j ds 0 used hand None MAX_MATCH_DIST] by simp
    with r show "MAX_MATCH_DIST \<le> weightedDist hand (ds ! j)" by simp
  qed
next
  assume a: "\<forall>j<length ds. j \<notin> used \<longrightarrow> MAX_MATCH_DIST \<le> weightedDist hand (ds ! j)"
  show "bestMatch hand used ds = None"
  proof (cases "bestMatch hand used ds")
    case None
    then show ?thesis .
  next
    case (Some i)
    from bestMatch_Some(1,2,3)[OF Some] a show ?thesis by force
  qed
qed

subsection \<open>The first loop, hand by hand\<close>

lemma length_matches: "length (matches ds used hands) = length hands"
  by (induction hands arbitrary: used) (auto split: option.splits)

lemma outcomes_Nil: "outcomes ds used [] = []"
  by (simp add: outcomes_def)

lemma outcomes_Cons:
  "outcomes ds used (hand # rest) =
     outcome ds hand (bestMatch hand used ds) #
     outcomes ds (case bestMatch hand used ds of Some i \<Rightarrow> insert i used | None \<Rightarrow> used) rest"
  by (simp add: outcomes_def split: option.splits)

lemma length_outcomes: "length (outcomes ds used hands) = length hands"
  by (simp add: outcomes_def length_matches)

lemma somes_append: "somes (ms @ ns) = somes ms @ somes ns"
  by (induction ms rule: somes.induct) simp_all

lemma set_somes: "set (somes ms) = {v. Some v \<in> set ms}"
  by (induction ms rule: somes.induct) auto

lemma foldl_stepHand:
  "foldl (stepHand ds) (nextHands, used) hands =
     (nextHands @ somes (outcomes ds used hands), used \<union> set (somes (matches ds used hands)))"
proof (induction hands arbitrary: nextHands used)
  case Nil
  show ?case by (simp add: outcomes_Nil)
next
  case (Cons hand rest)
  show ?case
  proof (cases "bestMatch hand used ds")
    case None
    then show ?thesis
      by (simp add: Cons.IH outcomes_Cons outcome_def)
  next
    case (Some i)
    then show ?thesis
      by (simp add: Cons.IH outcomes_Cons outcome_def)
  qed
qed

lemma processTracking_decomp:
  "processTracking now hands ds =
     somes (outcomes ds {} hands) @ newHands now (set (somes (matches ds {} hands))) 0 ds"
  by (simp add: processTracking_def foldl_stepHand)

lemma matches_nth:
  "k < length hands \<Longrightarrow>
   matches ds used hands ! k =
     bestMatch (hands ! k) (used \<union> set (somes (take k (matches ds used hands)))) ds"
proof (induction hands arbitrary: used k)
  case Nil
  then show ?case by simp
next
  case (Cons hand rest)
  show ?case
  proof (cases k)
    case 0
    then show ?thesis by (simp split: option.splits)
  next
    case (Suc k')
    with Cons.prems have k': "k' < length rest" by simp
    show ?thesis
    proof (cases "bestMatch hand used ds")
      case None
      then show ?thesis using Suc Cons.IH[OF k', of used] by simp
    next
      case (Some i)
      then show ?thesis using Suc Cons.IH[OF k', of "insert i used"] by simp
    qed
  qed
qed

lemma matches_fresh:
  "distinct (somes (matches ds used hands)) \<and>
   set (somes (matches ds used hands)) \<inter> used = {} \<and>
   set (somes (matches ds used hands)) \<subseteq> {..<length ds}"
proof (induction hands arbitrary: used)
  case Nil
  show ?case by simp
next
  case (Cons hand rest)
  show ?case
  proof (cases "bestMatch hand used ds")
    case None
    then show ?thesis using Cons.IH[of used] by simp
  next
    case (Some i)
    from bestMatch_Some(1,2)[OF Some] have i: "i < length ds" "i \<notin> used" .
    from Cons.IH[of "insert i used"] i Some show ?thesis by auto
  qed
qed

subsection \<open>The associator and the smoother\<close>

lemma weightedDist_spec: "weightedDist hand det = spec_weightedDist hand det"
proof (cases "side hand = side det")
  case True
  then show ?thesis
    by (simp add: weightedDist_def spec_weightedDist_def euclid_def Let_def)
next
  case False
  then have "side det \<noteq> side hand" by (rule not_sym)
  with False show ?thesis
    by (simp add: weightedDist_def spec_weightedDist_def euclid_def Let_def)
qed

lemma matchedHand_spec: "matchedHand hand det = spec_matched hand det"
  by (cases hand)
     (simp add: matchedHand_def spec_matched_def spec_adaptiveAlpha_def euclid_def lerp_def
        MIN_SMOOTHING_def MAX_SMOOTHING_def Let_def algebra_simps)

lemma missingHand_spec: "missingHand hand = spec_missing hand"
  by (cases hand)
     (simp add: missingHand_def spec_missing_def GRACE_PERIOD_def Let_def)

lemma outcomes_nth:
  "k < length hands \<Longrightarrow>
   outcomes ds used hands ! k = outcome ds (hands ! k) (matches ds used hands ! k)"
  by (simp add: outcomes_def length_matches)

text \<open>
  Claim C5. The first loop visits the tracks in store order: the tick is the fold of
  \<open>stepHand\<close> over the store, and what it pushes for the track at position \<open>k\<close> is decided
  by the best match of that track among the detections the tracks before it have not
  claimed. The inner loop weighs every detection not yet used by the Euclidean distance to
  the predicted position (position plus 0.8 times velocity), times 0.6 when the side labels
  agree and times 1 otherwise. The track is matched to an unused detection of least weighted
  distance when that distance is strictly below \<open>MAX_MATCH_DIST = 350\<close>: the step then
  pushes the matched hand and marks the detection used. It is left unmatched exactly when
  no unused detection is strictly below 350: the step then marks nothing used and pushes the
  coasting hand, or nothing.
\<close>

theorem associator_least_weighted_distance:
  "weightedDist hand det = spec_weightedDist hand det \<and>
   MAX_MATCH_DIST = 350 \<and>
   foldl (stepHand dets) ([], {}) hands =
     (somes (outcomes dets {} hands), set (somes (matches dets {} hands))) \<and>
   processTracking now hands dets =
     somes (outcomes dets {} hands)
       @ newHands now (set (somes (matches dets {} hands))) 0 dets \<and>
   length (matches dets {} hands) = length hands \<and>
   length (outcomes dets {} hands) = length hands \<and>
   (\<forall>k<length hands.
      matches dets {} hands ! k =
        bestMatch (hands ! k) (set (somes (take k (matches dets {} hands)))) dets \<and>
      outcomes dets {} hands ! k =
        (case matches dets {} hands ! k of
           Some i \<Rightarrow> Some (matchedHand (hands ! k) (dets ! i))
         | None \<Rightarrow>
             if framesMissing (hands ! k) < PERSISTENCE_FRAMES
             then Some (missingHand (hands ! k)) else None)) \<and>
   (\<forall>i. bestMatch hand used dets = Some i \<longrightarrow>
      stepHand dets (nextHands, used) hand =
        (nextHands @ [matchedHand hand (dets ! i)], insert i used)) \<and>
   (bestMatch hand used dets = None \<longrightarrow>
      stepHand dets (nextHands, used) hand =
        (if framesMissing hand < PERSISTENCE_FRAMES then nextHands @ [missingHand hand]
         else nextHands, used)) \<and>
   (bestMatch hand used dets = None \<longleftrightarrow>
      (\<forall>j<length dets. j \<notin> used \<longrightarrow> MAX_MATCH_DIST \<le> spec_weightedDist hand (dets ! j))) \<and>
   (\<forall>i. bestMatch hand used dets = Some i \<longrightarrow>
      i < length dets \<and> i \<notin> used \<and>
      spec_weightedDist hand (dets ! i) < MAX_MATCH_DIST \<and>
      (\<forall>j<length dets. j \<notin> used \<longrightarrow>
         spec_weightedDist hand (dets ! i) \<le> spec_weightedDist hand (dets ! j)))"
proof -
  have A: "weightedDist hand det = spec_weightedDist hand det" by (rule weightedDist_spec)
  have B: "MAX_MATCH_DIST = 350" by (rule MAX_MATCH_DIST_def)
  have C: "foldl (stepHand dets) ([], {}) hands =
     (somes (outcomes dets {} hands), set (somes (matches dets {} hands)))"
    by (simp add: foldl_stepHand)
  have D: "processTracking now hands dets =
     somes (outcomes dets {} hands)
       @ newHands now (set (somes (matches dets {} hands))) 0 dets"
    by (rule processTracking_decomp)
  have E: "length (matches dets {} hands) = length hands" by (rule length_matches)
  have F: "length (outcomes dets {} hands) = length hands" by (rule length_outcomes)
  have G: "\<forall>k<length hands.
      matches dets {} hands ! k =
        bestMatch (hands ! k) (set (somes (take k (matches dets {} hands)))) dets \<and>
      outcomes dets {} hands ! k =
        (case matches dets {} hands ! k of
           Some i \<Rightarrow> Some (matchedHand (hands ! k) (dets ! i))
         | None \<Rightarrow>
             if framesMissing (hands ! k) < PERSISTENCE_FRAMES
             then Some (missingHand (hands ! k)) else None)"
  proof (intro allI impI conjI)
    fix k assume k: "k < length hands"
    from matches_nth[OF k, of dets "{}"]
    show "matches dets {} hands ! k =
        bestMatch (hands ! k) (set (somes (take k (matches dets {} hands)))) dets"
      by simp
    show "outcomes dets {} hands ! k =
        (case matches dets {} hands ! k of
           Some i \<Rightarrow> Some (matchedHand (hands ! k) (dets ! i))
         | None \<Rightarrow>
             if framesMissing (hands ! k) < PERSISTENCE_FRAMES
             then Some (missingHand (hands ! k)) else None)"
      by (simp add: outcomes_nth[OF k] outcome_def)
  qed
  have H: "\<forall>i. bestMatch hand used dets = Some i \<longrightarrow>
      stepHand dets (nextHands, used) hand =
        (nextHands @ [matchedHand hand (dets ! i)], insert i used)"
    by simp
  have I: "bestMatch hand used dets = None \<longrightarrow>
      stepHand dets (nextHands, used) hand =
        (if framesMissing hand < PERSISTENCE_FRAMES then nextHands @ [missingHand hand]
         else nextHands, used)"
    by simp
  have J: "bestMatch hand used dets = None \<longleftrightarrow>
      (\<forall>j<length dets. j \<notin> used \<longrightarrow> MAX_MATCH_DIST \<le> spec_weightedDist hand (dets ! j))"
    using bestMatch_None_iff[of hand used dets] by (simp add: weightedDist_spec)
  have K: "\<forall>i. bestMatch hand used dets = Some i \<longrightarrow>
      i < length dets \<and> i \<notin> used \<and>
      spec_weightedDist hand (dets ! i) < MAX_MATCH_DIST \<and>
      (\<forall>j<length dets. j \<notin> used \<longrightarrow>
         spec_weightedDist hand (dets ! i) \<le> spec_weightedDist hand (dets ! j))"
  proof (intro allI impI conjI)
    fix i assume s: "bestMatch hand used dets = Some i"
    show "i < length dets" by (rule bestMatch_Some(1)[OF s])
    show "i \<notin> used" by (rule bestMatch_Some(2)[OF s])
    show "spec_weightedDist hand (dets ! i) < MAX_MATCH_DIST"
      using bestMatch_Some(3)[OF s] by (simp add: weightedDist_spec)
    fix j assume "j < length dets" "j \<notin> used"
    from bestMatch_Some(4)[OF s this]
    show "spec_weightedDist hand (dets ! i) \<le> spec_weightedDist hand (dets ! j)"
      by (simp add: weightedDist_spec)
  qed
  from A B C D E F G H I J K show ?thesis by (intro conjI)
qed

text \<open>
  Claim C6. Within a tick no detection is matched to two tracks: the indices the tracks
  claim are pairwise distinct, they are exactly the set \<^verbatim>\<open>usedDetections\<close> after the first
  loop, and the index a track claims was claimed by no track visited before it.
\<close>

theorem detection_matched_at_most_once:
  "distinct (somes (matches dets {} hands)) \<and>
   snd (foldl (stepHand dets) ([], {}) hands) = set (somes (matches dets {} hands)) \<and>
   (\<forall>k<length hands. \<forall>i. matches dets {} hands ! k = Some i \<longrightarrow>
      i < length dets \<and> i \<notin> set (somes (take k (matches dets {} hands))))"
proof (intro conjI allI impI)
  show "distinct (somes (matches dets {} hands))"
    using matches_fresh[of dets "{}" hands] by simp
  show "snd (foldl (stepHand dets) ([], {}) hands) = set (somes (matches dets {} hands))"
    by (simp add: foldl_stepHand)
next
  fix k i
  assume k: "k < length hands" and m: "matches dets {} hands ! k = Some i"
  from matches_nth[OF k, of dets "{}"] m
  have b: "bestMatch (hands ! k) (set (somes (take k (matches dets {} hands)))) dets = Some i"
    by simp
  show "i < length dets" by (rule bestMatch_Some(1)[OF b])
  show "i \<notin> set (somes (take k (matches dets {} hands)))" by (rule bestMatch_Some(2)[OF b])
qed

text \<open>
  Claim C3. The hand pushed for a matched track is the reference definition
  \<open>spec_matched\<close>: the position interpolated toward the detection by the adaptive factor
  0.15 + min(moveDist, 150)/150 * (0.8 - 0.15), the velocity the difference of the new and
  the old position, the side of the detection, \<open>framesMissing = 0\<close>, \<open>alpha = 1\<close> and
  \<open>framesDetected\<close> one more.
\<close>

theorem matched_track_update:
  "matchedHand hand det = spec_matched hand det \<and>
   (\<forall>i. bestMatch hand used dets = Some i \<longrightarrow>
      stepHand dets (nextHands, used) hand =
        (nextHands @ [spec_matched hand (dets ! i)], insert i used)) \<and>
   (\<forall>k<length hands. \<forall>i. matches dets {} hands ! k = Some i \<longrightarrow>
      outcomes dets {} hands ! k = Some (spec_matched (hands ! k) (dets ! i)))"
proof (intro conjI allI impI)
  show "matchedHand hand det = spec_matched hand det" by (rule matchedHand_spec)
next
  fix i assume "bestMatch hand used dets = Some i"
  then show "stepHand dets (nextHands, used) hand =
        (nextHands @ [spec_matched hand (dets ! i)], insert i used)"
    by (simp add: matchedHand_spec)
next
  fix k i assume k: "k < length hands" and m: "matches dets {} hands ! k = Some i"
  show "outcomes dets {} hands ! k = Some (spec_matched (hands ! k) (dets ! i))"
    by (simp add: outcomes_nth[OF k] m outcome_def matchedHand_spec)
qed

subsection \<open>Witnesses for the associator and the smoother\<close>

lemma sqrt_810000: "sqrt 810000 = 900"
  by (rule real_sqrt_unique) simp_all

lemma bestMatch_a: "bestMatch hand_a {} [det_b, det_a] = Some 1"
  by (simp add: bestMatch_def weightedDist_def hand_a_def det_a_def det_b_def MAX_MATCH_DIST_def sqrt_810000)

lemma matches_ab: "matches [det_a] {} [hand_a, hand_b] = [Some 0, None]"
  by (simp add: bestMatch_def weightedDist_def hand_a_def hand_b_def det_a_def det_b_def MAX_MATCH_DIST_def)

theorem associator_least_weighted_distance_witness:
  "bestMatch hand_a {} [det_b, det_a] = Some 1 \<and>
   spec_weightedDist hand_a ([det_b, det_a] ! 1) < MAX_MATCH_DIST \<and>
   spec_weightedDist hand_a ([det_b, det_a] ! 1) \<le> spec_weightedDist hand_a ([det_b, det_a] ! 0) \<and>
   stepHand [det_b, det_a] ([], {}) hand_a = ([matchedHand hand_a det_a], {1}) \<and>
   foldl (stepHand [det_a]) ([], {}) [hand_a, hand_b] =
     ([matchedHand hand_a det_a, missingHand hand_b], {0})"
proof -
  have b: "bestMatch hand_a {} [det_b, det_a] = Some 1" by (rule bestMatch_a)
  have u: "(0::nat) < length [det_b, det_a]" "(0::nat) \<notin> {}" by simp_all
  note t = associator_least_weighted_distance[where hand = hand_a and det = det_a
      and hands = "[hand_a, hand_b]" and dets = "[det_b, det_a]" and used = "{}"
      and nextHands = "[]" and now = "steady 0"]
  from t have "\<forall>i. bestMatch hand_a {} [det_b, det_a] = Some i \<longrightarrow>
      i < length [det_b, det_a] \<and> i \<notin> {} \<and>
      spec_weightedDist hand_a ([det_b, det_a] ! i) < MAX_MATCH_DIST \<and>
      (\<forall>j<length [det_b, det_a]. j \<notin> {} \<longrightarrow>
         spec_weightedDist hand_a ([det_b, det_a] ! i) \<le> spec_weightedDist hand_a ([det_b, det_a] ! j))"
    by blast
  with b have "spec_weightedDist hand_a ([det_b, det_a] ! 1) < MAX_MATCH_DIST \<and>
      (\<forall>j<length [det_b, det_a]. j \<notin> {} \<longrightarrow>
         spec_weightedDist hand_a ([det_b, det_a] ! 1) \<le> spec_weightedDist hand_a ([det_b, det_a] ! j))"
    by blast
  with u have w: "spec_weightedDist hand_a ([det_b, det_a] ! 1) < MAX_MATCH_DIST \<and>
      spec_weightedDist hand_a ([det_b, det_a] ! 1) \<le> spec_weightedDist hand_a ([det_b, det_a] ! 0)"
    by blast
  from t have "\<forall>i. bestMatch hand_a {} [det_b, det_a] = Some i \<longrightarrow>
      stepHand [det_b, det_a] ([], {}) hand_a =
        ([] @ [matchedHand hand_a ([det_b, det_a] ! i)], insert i {})"
    by blast
  with b have "stepHand [det_b, det_a] ([], {}) hand_a =
        ([] @ [matchedHand hand_a ([det_b, det_a] ! 1)], insert 1 {})"
    by blast
  then have st: "stepHand [det_b, det_a] ([], {}) hand_a = ([matchedHand hand_a det_a], {1})"
    by simp
  have fm_b: "framesMissing hand_b < PERSISTENCE_FRAMES"
    by (simp add: hand_b_def PERSISTENCE_FRAMES_def)
  have o: "outcomes [det_a] {} [hand_a, hand_b] =
      [Some (matchedHand hand_a det_a), Some (missingHand hand_b)]"
    unfolding outcomes_def matches_ab by (simp add: outcome_def fm_b)
  have "foldl (stepHand [det_a]) ([], {}) [hand_a, hand_b] =
     (somes (outcomes [det_a] {} [hand_a, hand_b]), set (somes (matches [det_a] {} [hand_a, hand_b])))"
    by (rule associator_least_weighted_distance[where hand = hand_a and det = det_a
      and hands = "[hand_a, hand_b]" and dets = "[det_a]" and used = "{}"
      and nextHands = "[]" and now = "steady 0",
      THEN conjunct2, THEN conjunct2, THEN conjunct1])
  then have fo: "foldl (stepHand [det_a]) ([], {}) [hand_a, hand_b] =
     ([matchedHand hand_a det_a, missingHand hand_b], {0})"
    unfolding o matches_ab by simp
  from b w st fo show ?thesis by blast
qed

theorem detection_matched_at_most_once_witness:
  "matches [det_a] {} [hand_a, hand_b] = [Some 0, None] \<and>
   distinct (somes (matches [det_a] {} [hand_a, hand_b])) \<and>
   snd (foldl (stepHand [det_a]) ([], {}) [hand_a, hand_b]) = {0}"
proof -
  have m: "matches [det_a] {} [hand_a, hand_b] = [Some 0, None]" by (rule matches_ab)
  from detection_matched_at_most_once[of "[det_a]" "[hand_a, hand_b]"]
  have "distinct (somes (matches [det_a] {} [hand_a, hand_b]))"
    and "snd (foldl (stepHand [det_a]) ([], {}) [hand_a, hand_b]) =
           set (somes (matches [det_a] {} [hand_a, hand_b]))"
    by blast+
  with m show ?thesis by simp
qed

theorem matched_track_update_witness:
  "bestMatch hand_a {} [det_a] = Some 0 \<and>
   stepHand [det_a] ([], {}) hand_a = ([spec_matched hand_a det_a], {0}) \<and>
   spec_matched hand_a det_a = hand_a\<lparr>framesDetected := 2\<rparr>"
proof -
  have b: "bestMatch hand_a {} [det_a] = Some 0"
    by (simp add: bestMatch_def weightedDist_def hand_a_def det_a_def MAX_MATCH_DIST_def)
  from matched_track_update[of hand_a det_a "{}" "[det_a]" "[]" "[]"]
  have "\<forall>i. bestMatch hand_a {} [det_a] = Some i \<longrightarrow>
      stepHand [det_a] ([], {}) hand_a = ([] @ [spec_matched hand_a ([det_a] ! i)], insert i {})"
    by blast
  with b have s: "stepHand [det_a] ([], {}) hand_a = ([] @ [spec_matched hand_a ([det_a] ! 0)], insert 0 {})"
    by blast
  have e: "spec_matched hand_a det_a = hand_a\<lparr>framesDetected := 2\<rparr>"
    by (simp add: spec_matched_def spec_adaptiveAlpha_def euclid_def lerp_def hand_a_def det_a_def)
  from b s e show ?thesis by simp
qed

subsection \<open>Ticks without detections\<close>

lemma bestMatch_no_detections: "bestMatch hand used [] = None"
  by (simp add: bestMatch_def)

lemma foldl_stepHand_no_detections:
  "foldl (stepHand []) (nextHands, used) hands =
     (nextHands @ map missingHand (filter (\<lambda>h. framesMissing h < PERSISTENCE_FRAMES) hands), used)"
  by (induction hands arbitrary: nextHands) (simp_all add: bestMatch_no_detections)

lemma tick_no_detections:
  "processTracking now hands [] =
     map missingHand (filter (\<lambda>h. framesMissing h < PERSISTENCE_FRAMES) hands)"
  by (simp add: processTracking_def foldl_stepHand_no_detections)

lemma framesMissing_missingHand: "framesMissing (missingHand h) = framesMissing h + 1"
  by (simp add: missingHand_def Let_def)

lemma hand_id_missingHand: "hand_id (missingHand h) = hand_id h"
  by (simp add: missingHand_def Let_def)

lemma framesDetected_missingHand: "framesDetected (missingHand h) = framesDetected h"
  by (simp add: missingHand_def Let_def)

lemma framesMissing_coast: "framesMissing ((missingHand ^^ n) h) = framesMissing h + n"
  by (induction n) (simp_all add: framesMissing_missingHand)

lemma hand_id_coast: "hand_id ((missingHand ^^ n) h) = hand_id h"
  by (induction n) (simp_all add: hand_id_missingHand)

lemma run_Nil: "run hands [] = hands"
  by (simp add: run_def)

lemma run_Cons: "run hands ((now, ds) # frames) = run (processTracking now hands ds) frames"
  by (simp add: run_def)

lemma run_append: "run hands (fs @ gs) = run (run hands fs) gs"
  by (simp add: run_def)

lemma run_snoc: "run hands (fs @ [(now, ds)]) = processTracking now (run hands fs) ds"
  by (simp add: run_def)

lemma run_no_detections:
  "\<forall>h\<in>set hands. framesMissing h \<le> PERSISTENCE_FRAMES \<Longrightarrow>
   run hands (map (\<lambda>now. (now, [])) clocks) =
     map (missingHand ^^ length clocks)
       (filter (\<lambda>h. framesMissing h + length clocks \<le> PERSISTENCE_FRAMES) hands)"
proof (induction clocks arbitrary: hands)
  case Nil
  then have "filter (\<lambda>h. framesMissing h \<le> PERSISTENCE_FRAMES) hands = hands"
    by (simp add: filter_id_conv)
  then show ?case by (simp add: run_Nil)
next
  case (Cons now clocks)
  let ?n = "length clocks"
  let ?next = "map missingHand (filter (\<lambda>h. framesMissing h < PERSISTENCE_FRAMES) hands)"
  have bound: "\<forall>h\<in>set ?next. framesMissing h \<le> PERSISTENCE_FRAMES"
    by (auto simp add: framesMissing_missingHand)
  have "run hands (map (\<lambda>now. (now, [])) (now # clocks)) =
        run ?next (map (\<lambda>now. (now, [])) clocks)"
    by (simp add: run_Cons tick_no_detections)
  also have "\<dots> = map (missingHand ^^ ?n)
       (filter (\<lambda>h. framesMissing h + ?n \<le> PERSISTENCE_FRAMES) ?next)"
    by (rule Cons.IH[OF bound])
  also have "\<dots> = map (missingHand ^^ ?n)
       (map missingHand (filter (\<lambda>h. framesMissing h + Suc ?n \<le> PERSISTENCE_FRAMES) hands))"
  proof -
    have "\<And>h. (framesMissing (missingHand h) + ?n \<le> PERSISTENCE_FRAMES \<and>
                framesMissing h < PERSISTENCE_FRAMES) =
               (framesMissing h + Suc ?n \<le> PERSISTENCE_FRAMES)"
      by (auto simp add: framesMissing_missingHand)
    then show ?thesis by (simp add: filter_map comp_def conj_commute)
  qed
  also have "\<dots> = map (missingHand ^^ Suc ?n)
       (filter (\<lambda>h. framesMissing h + Suc ?n \<le> PERSISTENCE_FRAMES) hands)"
    by (simp add: funpow_swap1 comp_def)
  finally show ?case by simp
qed

lemma fade_step:
  "max 0 (max 0 (1 - r / 10) - 0.1) = max (0::real) (1 - (r + 1) / 10)"
  by (auto simp add: max_def field_simps)

lemma alpha_coast:
  "alpha h = 1 \<Longrightarrow> framesMissing h = 0 \<Longrightarrow>
   alpha ((missingHand ^^ n) h) = (if n \<le> 5 then 1 else max 0 (1 - real (n - 5) / 10))"
proof (induction n)
  case 0
  then show ?case by simp
next
  case (Suc n)
  have fm: "framesMissing ((missingHand ^^ n) h) = n"
    using Suc.prems by (simp add: framesMissing_coast)
  have step: "alpha ((missingHand ^^ Suc n) h) =
        (if n + 1 > 5 then max 0 (alpha ((missingHand ^^ n) h) - 0.1)
         else alpha ((missingHand ^^ n) h))"
    by (simp add: missingHand_def Let_def GRACE_PERIOD_def fm)
  show ?case
  proof (cases "n < 5")
    case True
    then show ?thesis using step Suc by simp
  next
    case False
    then have n: "5 \<le> n" by simp
    show ?thesis
    proof (cases "n = 5")
      case True
      then show ?thesis using step Suc by simp
    next
      case False
      with n have "5 < n" by simp
      then have r: "real (Suc n - 5) = real (n - 5) + 1" by (simp add: Suc_diff_le)
      from \<open>5 < n\<close> Suc have "alpha ((missingHand ^^ n) h) = max 0 (1 - real (n - 5) / 10)"
        by simp
      with step \<open>5 < n\<close> have "alpha ((missingHand ^^ Suc n) h) =
          max 0 (max 0 (1 - real (n - 5) / 10) - 0.1)" by simp
      also have "\<dots> = max 0 (1 - (real (n - 5) + 1) / 10)" by (rule fade_step)
      finally show ?thesis using \<open>5 < n\<close> r by simp
    qed
  qed
qed

subsection \<open>Invariants of a run\<close>

lemma in_somes_outcomes:
  "h' \<in> set (somes (outcomes ds used hands)) \<Longrightarrow>
   \<exists>h\<in>set hands. (\<exists>i<length ds. h' = matchedHand h (ds ! i)) \<or>
      (framesMissing h < PERSISTENCE_FRAMES \<and> h' = missingHand h)"
proof (induction hands arbitrary: used)
  case Nil
  then show ?case by (simp add: outcomes_Nil)
next
  case (Cons hand rest)
  show ?case
  proof (cases "bestMatch hand used ds")
    case None
    from Cons.prems None
    have "(framesMissing hand < PERSISTENCE_FRAMES \<and> h' = missingHand hand) \<or>
          h' \<in> set (somes (outcomes ds used rest))"
      by (auto simp add: outcomes_Cons outcome_def split: if_splits)
    then show ?thesis using Cons.IH[of used] by auto
  next
    case (Some i)
    from bestMatch_Some(1)[OF Some] have i: "i < length ds" .
    from Cons.prems Some
    have "h' = matchedHand hand (ds ! i) \<or>
          h' \<in> set (somes (outcomes ds (insert i used) rest))"
      by (auto simp add: outcomes_Cons outcome_def)
    then show ?thesis using Cons.IH[of "insert i used"] i by auto
  qed
qed

lemma in_newHands:
  "h' \<in> set (newHands now used k ds) \<Longrightarrow>
   \<exists>j<length ds. k + j \<notin> used \<and> h' = newHand (now (k + j)) (k + j) (ds ! j)"
proof (induction ds arbitrary: k)
  case Nil
  then show ?case by simp
next
  case (Cons det rest)
  show ?case
  proof (cases "h' \<in> set (newHands now used (Suc k) rest)")
    case True
    from Cons.IH[OF True] obtain j where "j < length rest" "Suc k + j \<notin> used"
      "h' = newHand (now (Suc k + j)) (Suc k + j) (rest ! j)" by blast
    then have "Suc j < length (det # rest) \<and> k + Suc j \<notin> used \<and>
               h' = newHand (now (k + Suc j)) (k + Suc j) ((det # rest) ! Suc j)" by simp
    then show ?thesis by blast
  next
    case False
    with Cons.prems have "k \<notin> used \<and> h' = newHand (now k) k det"
      by (auto split: if_splits)
    then have "0 < length (det # rest) \<and> k + 0 \<notin> used \<and>
               h' = newHand (now (k + 0)) (k + 0) ((det # rest) ! 0)" by simp
    then show ?thesis by blast
  qed
qed

lemma tick_invariant:
  assumes "\<forall>h\<in>set hands. P h"
    and "\<And>h d. P h \<Longrightarrow> P (matchedHand h d)"
    and "\<And>h. P h \<Longrightarrow> P (missingHand h)"
    and "\<And>r i d. P (newHand r i d)"
  shows "\<forall>h\<in>set (processTracking now hands ds). P h"
proof
  fix h' assume "h' \<in> set (processTracking now hands ds)"
  then consider "h' \<in> set (somes (outcomes ds {} hands))"
    | "h' \<in> set (newHands now (set (somes (matches ds {} hands))) 0 ds)"
    by (auto simp add: processTracking_decomp)
  then show "P h'"
  proof cases
    case 1
    from in_somes_outcomes[OF 1] assms(1,2,3) show ?thesis by blast
  next
    case 2
    from in_newHands[OF 2] assms(4) show ?thesis by blast
  qed
qed

lemma run_invariant:
  assumes "\<forall>h\<in>set hands. P h"
    and "\<And>h d. P h \<Longrightarrow> P (matchedHand h d)"
    and "\<And>h. P h \<Longrightarrow> P (missingHand h)"
    and "\<And>r i d. P (newHand r i d)"
  shows "\<forall>h\<in>set (run hands frames). P h"
proof (induction frames rule: rev_induct)
  case Nil
  show ?case using assms(1) by (simp add: run_Nil)
next
  case (snoc f frames)
  obtain now ds where f: "f = (now, ds)" by (cases f)
  show ?case unfolding f run_snoc
    by (rule tick_invariant[OF snoc assms(2,3,4)])
qed

lemma alpha_matchedHand: "alpha (matchedHand h d) = 1"
  by (simp add: matchedHand_def Let_def)

lemma alpha_newHand: "alpha (newHand r i d) = 1"
  by (simp add: newHand_def)

lemma alpha_missingHand:
  "0 \<le> alpha h \<and> alpha h \<le> 1 \<Longrightarrow> 0 \<le> alpha (missingHand h) \<and> alpha (missingHand h) \<le> 1"
  by (simp add: missingHand_def Let_def)

text \<open>
  Claim C7. In every store the tracker reaches from the empty store, whatever the clock
  readings and the detections of its ticks, \<open>alpha\<close> of every track lies between 0 and
  1.
\<close>

theorem alpha_in_unit_interval:
  "\<forall>h\<in>set (run [] frames). 0 \<le> alpha h \<and> alpha h \<le> 1"
proof (rule run_invariant)
  show "\<forall>h\<in>set []. 0 \<le> alpha h \<and> alpha h \<le> 1" by simp
  show "\<And>h d. 0 \<le> alpha h \<and> alpha h \<le> 1 \<Longrightarrow>
          0 \<le> alpha (matchedHand h d) \<and> alpha (matchedHand h d) \<le> 1"
    by (simp add: alpha_matchedHand)
  show "\<And>h. 0 \<le> alpha h \<and> alpha h \<le> 1 \<Longrightarrow>
          0 \<le> alpha (missingHand h) \<and> alpha (missingHand h) \<le> 1"
    by (rule alpha_missingHand)
  show "\<And>r i d. 0 \<le> alpha (newHand r i d) \<and> alpha (newHand r i d) \<le> 1"
    by (simp add: alpha_newHand)
qed

lemma steady_apply: "steady r idx = r"
  by (simp add: steady_def)

lemma tick_create_a: "processTracking (steady 1000) [] [det_a] = [hand_a]"
  by (simp add: processTracking_def newHand_def hand_a_def det_a_def steady_def)

theorem alpha_in_unit_interval_witness:
  "run [] [(steady 1000, [det_a])] = [hand_a] \<and> 0 \<le> alpha hand_a \<and> alpha hand_a \<le> 1"
proof -
  have r: "run [] [(steady 1000, [det_a])] = [hand_a]"
    by (simp add: run_Cons run_Nil tick_create_a)
  then have "hand_a \<in> set (run [] [(steady 1000, [det_a])])" by simp
  with alpha_in_unit_interval[of "[(steady 1000, [det_a])]"]
  have "0 \<le> alpha hand_a \<and> alpha hand_a \<le> 1" by (rule bspec)
  with r show ?thesis by (rule conjI)
qed

subsection \<open>The missing branch\<close>

lemma coast_values:
  assumes "alpha h = 1" and "framesMissing h = 0"
  shows "\<forall>n\<in>{1..5}. alpha ((missingHand ^^ n) h) = 1"
    and "alpha ((missingHand ^^ 6) h) = 0.9"
    and "alpha ((missingHand ^^ 7) h) = 0.8"
proof -
  show "\<forall>n\<in>{1..5}. alpha ((missingHand ^^ n) h) = 1"
    using alpha_coast[OF assms] by simp
  show "alpha ((missingHand ^^ 6) h) = 0.9"
    using alpha_coast[OF assms, of 6] by simp
  show "alpha ((missingHand ^^ 7) h) = 0.8"
    using alpha_coast[OF assms, of 7] by simp
qed

lemma run_single_no_detections:
  assumes "framesMissing h = 0" and "length clocks \<le> PERSISTENCE_FRAMES"
  shows "run [h] (map (\<lambda>now. (now, [])) clocks) = [(missingHand ^^ length clocks) h]"
proof -
  have "\<forall>h'\<in>set [h]. framesMissing h' \<le> PERSISTENCE_FRAMES" using assms(1) by simp
  from run_no_detections[OF this, of clocks] assms show ?thesis by simp
qed

text \<open>
  Claim C4. The hand pushed for an unmatched track with \<open>framesMissing < 20\<close> is the
  reference definition \<open>spec_missing\<close>: velocity times 0.9, position advanced by the damped
  velocity, \<open>framesMissing\<close> one more, \<open>framesDetected\<close> unchanged, and \<open>alpha\<close> lowered
  by 0.1 (not below 0) when the new \<open>framesMissing\<close> is above 5, unchanged otherwise. A
  track with \<open>alpha = 1\<close> and \<open>framesMissing = 0\<close> that gets no detection for n ticks, n
  at most 20, is still in the store, with \<open>alpha = 1\<close> for n up to 5, 0.9 for n = 6 and
  0.8 for n = 7.
\<close>

theorem missing_track_update:
  "missingHand hand = spec_missing hand \<and>
   (bestMatch hand used dets = None \<and> framesMissing hand < 20 \<longrightarrow>
      stepHand dets (nextHands, used) hand = (nextHands @ [spec_missing hand], used)) \<and>
   (\<forall>k<length hands.
      matches dets {} hands ! k = None \<and> framesMissing (hands ! k) < 20 \<longrightarrow>
      outcomes dets {} hands ! k = Some (spec_missing (hands ! k))) \<and>
   (alpha hand = 1 \<and> framesMissing hand = 0 \<and> length clocks \<le> 20 \<longrightarrow>
      run [hand] (map (\<lambda>now. (now, [])) clocks) = [(missingHand ^^ length clocks) hand] \<and>
      alpha ((missingHand ^^ length clocks) hand) =
        (if length clocks \<le> 5 then 1 else max 0 (1 - real (length clocks - 5) / 10))) \<and>
   (alpha hand = 1 \<and> framesMissing hand = 0 \<longrightarrow>
      (\<forall>n\<in>{1..5}. alpha ((missingHand ^^ n) hand) = 1) \<and>
      alpha ((missingHand ^^ 6) hand) = 0.9 \<and>
      alpha ((missingHand ^^ 7) hand) = 0.8)"
proof (intro conjI allI impI)
  show "missingHand hand = spec_missing hand" by (rule missingHand_spec)
next
  assume "bestMatch hand used dets = None \<and> framesMissing hand < 20"
  then show "stepHand dets (nextHands, used) hand = (nextHands @ [spec_missing hand], used)"
    by (simp add: missingHand_spec PERSISTENCE_FRAMES_def)
next
  fix k
  assume k: "k < length hands"
    and m: "matches dets {} hands ! k = None \<and> framesMissing (hands ! k) < 20"
  show "outcomes dets {} hands ! k = Some (spec_missing (hands ! k))"
    using m by (simp add: outcomes_nth[OF k] outcome_def missingHand_spec PERSISTENCE_FRAMES_def)
next
  assume a: "alpha hand = 1 \<and> framesMissing hand = 0 \<and> length clocks \<le> 20"
  then show "run [hand] (map (\<lambda>now. (now, [])) clocks) = [(missingHand ^^ length clocks) hand]"
    by (simp add: run_single_no_detections PERSISTENCE_FRAMES_def)
  from a show "alpha ((missingHand ^^ length clocks) hand) =
        (if length clocks \<le> 5 then 1 else max 0 (1 - real (length clocks - 5) / 10))"
    by (simp add: alpha_coast)
next
  assume a: "alpha hand = 1 \<and> framesMissing hand = 0"
  then show "\<forall>n\<in>{1..5}. alpha ((missingHand ^^ n) hand) = 1"
    by (simp add: coast_values(1))
  from a show "alpha ((missingHand ^^ 6) hand) = 0.9" by (simp add: coast_values(2))
  from a show "alpha ((missingHand ^^ 7) hand) = 0.8" by (simp add: coast_values(3))
qed

theorem missing_track_update_witness:
  "alpha hand_a = 1 \<and> framesMissing hand_a = 0 \<and>
   map alpha (run [hand_a] (map (\<lambda>now. (now, [])) (map steady [1001, 1002, 1003, 1004, 1005]))) = [1] \<and>
   map alpha (run [hand_a] (map (\<lambda>now. (now, [])) (map steady [1001, 1002, 1003, 1004, 1005, 1006]))) = [0.9] \<and>
   map alpha (run [hand_a] (map (\<lambda>now. (now, [])) (map steady [1001, 1002, 1003, 1004, 1005, 1006, 1007])))
     = [0.8]"
proof -
  have h: "alpha hand_a = 1" "framesMissing hand_a = 0" by (simp_all add: hand_a_def)
  have t: "alpha hand_a = 1 \<and> framesMissing hand_a = 0 \<and> length clocks \<le> 20 \<longrightarrow>
      run [hand_a] (map (\<lambda>now. (now, [])) clocks) = [(missingHand ^^ length clocks) hand_a] \<and>
      alpha ((missingHand ^^ length clocks) hand_a) =
        (if length clocks \<le> 5 then 1 else max 0 (1 - real (length clocks - 5) / 10))"
    for clocks :: "(nat \<Rightarrow> int) list"
    by (rule missing_track_update[where hand = hand_a and used = "{}" and dets = "[]"
          and nextHands = "[]" and hands = "[]" and clocks = clocks,
          THEN conjunct2, THEN conjunct2, THEN conjunct2, THEN conjunct1])
  have c: "length clocks \<le> 20 \<Longrightarrow>
      map alpha (run [hand_a] (map (\<lambda>now. (now, [])) clocks)) =
        [if length clocks \<le> 5 then 1 else max 0 (1 - real (length clocks - 5) / 10)]"
    for clocks :: "(nat \<Rightarrow> int) list"
    using t[of clocks] h by simp
  have 5: "map alpha (run [hand_a] (map (\<lambda>now. (now, [])) (map steady [1001, 1002, 1003, 1004, 1005]))) = [1]"
    using c[of "map steady [1001, 1002, 1003, 1004, 1005]"] by simp
  have 6: "map alpha (run [hand_a] (map (\<lambda>now. (now, [])) (map steady [1001, 1002, 1003, 1004, 1005, 1006])))
      = [0.9]"
    using c[of "map steady [1001, 1002, 1003, 1004, 1005, 1006]"] by simp
  have 7: "map alpha (run [hand_a] (map (\<lambda>now. (now, [])) (map steady [1001, 1002, 1003, 1004, 1005, 1006, 1007])))
      = [0.8]"
    using c[of "map steady [1001, 1002, 1003, 1004, 1005, 1006, 1007]"] by simp
  from h 5 6 7 show ?thesis by simp
qed

subsection \<open>Eviction\<close>

lemma hand_id_matchedHand: "hand_id (matchedHand h d) = hand_id h"
  by (simp add: matchedHand_def Let_def)

lemma framesMissing_matchedHand: "framesMissing (matchedHand h d) = 0"
  by (simp add: matchedHand_def Let_def)

lemma hand_id_newHand: "hand_id (newHand r i d) = r + int i"
  by (simp add: newHand_def)

lemma outcome_None_iff:
  "outcome ds hand m = None \<longleftrightarrow> m = None \<and> PERSISTENCE_FRAMES < framesMissing hand + 1"
  by (auto simp add: outcome_def split: option.splits)

lemma outcome_Some:
  "outcome ds hand m = Some h' \<Longrightarrow>
   hand_id h' = hand_id hand \<and>
   framesMissing h' = (if m = None then framesMissing hand + 1 else 0)"
  by (auto simp add: outcome_def hand_id_matchedHand hand_id_missingHand
      framesMissing_matchedHand framesMissing_missingHand split: option.splits if_splits)

lemma tick_ids:
  assumes "h' \<in> set (processTracking now hands ds)"
  shows "hand_id h' \<in> hand_id ` set hands \<or>
         (\<exists>idx<length ds. hand_id h' = now idx + int idx)"
proof -
  from assms consider "h' \<in> set (somes (outcomes ds {} hands))"
    | "h' \<in> set (newHands now (set (somes (matches ds {} hands))) 0 ds)"
    by (auto simp add: processTracking_decomp)
  then show ?thesis
  proof cases
    case 1
    from in_somes_outcomes[OF 1] show ?thesis
      by (auto simp add: hand_id_matchedHand hand_id_missingHand)
  next
    case 2
    from in_newHands[OF 2] show ?thesis
      by (auto simp add: hand_id_newHand)
  qed
qed

lemma run_ids:
  "h' \<in> set (run hands frames) \<Longrightarrow>
   hand_id h' \<in> hand_id ` set hands \<or>
   (\<exists>f\<in>set frames. \<exists>idx<length (snd f). hand_id h' = fst f idx + int idx)"
proof (induction frames arbitrary: h' rule: rev_induct)
  case Nil
  then show ?case by (simp add: run_Nil)
next
  case (snoc f frames)
  obtain now ds where f: "f = (now, ds)" by (cases f)
  from snoc.prems have "h' \<in> set (processTracking now (run hands frames) ds)"
    by (simp add: f run_snoc)
  from tick_ids[OF this]
  show ?case
  proof
    assume "hand_id h' \<in> hand_id ` set (run hands frames)"
    then obtain h where h: "h \<in> set (run hands frames)" "hand_id h' = hand_id h" by auto
    from snoc.IH[OF h(1)] h(2) show ?thesis by auto
  next
    assume "\<exists>idx<length ds. hand_id h' = now idx + int idx"
    then show ?thesis by (auto simp add: f)
  qed
qed

lemma run_all_evicted:
  assumes "\<forall>h\<in>set hands. framesMissing h \<le> PERSISTENCE_FRAMES"
    and "PERSISTENCE_FRAMES < length clocks"
  shows "run hands (map (\<lambda>now. (now, [])) clocks @ frames) = run [] frames"
proof -
  from assms(2) have "filter (\<lambda>h. framesMissing h + length clocks \<le> PERSISTENCE_FRAMES) hands = []"
    by (simp add: filter_empty_conv)
  with run_no_detections[OF assms(1), of clocks]
  have "run hands (map (\<lambda>now. (now, [])) clocks) = []" by simp
  then show ?thesis by (simp add: run_append)
qed

lemma run_all_kept:
  assumes "\<forall>h\<in>set hands. framesMissing h = 0"
    and "length clocks \<le> PERSISTENCE_FRAMES"
  shows "run hands (map (\<lambda>now. (now, [])) clocks) = map (missingHand ^^ length clocks) hands"
proof -
  from assms have "filter (\<lambda>h. framesMissing h + length clocks \<le> PERSISTENCE_FRAMES) hands = hands"
    by (simp add: filter_id_conv)
  moreover from assms(1) have "\<forall>h\<in>set hands. framesMissing h \<le> PERSISTENCE_FRAMES" by simp
  from run_no_detections[OF this, of clocks]
  have "run hands (map (\<lambda>now. (now, [])) clocks) =
     map (missingHand ^^ length clocks)
       (filter (\<lambda>h. framesMissing h + length clocks \<le> PERSISTENCE_FRAMES) hands)" .
  ultimately show ?thesis by simp
qed

text \<open>
  The eviction rule, on the tick itself. With \<open>PERSISTENCE_FRAMES = 20\<close>: the next store
  is the list of the outcomes of the tracks of the previous store followed by the created
  tracks; a track is dropped exactly when the tick leaves it unmatched and its miss streak,
  this tick included, exceeds 20; a track that is kept keeps its id, and its
  \<open>framesMissing\<close> is the miss streak. A track that was just matched is still in the store
  after 20 ticks without a detection and is gone after the 21st, and from then on the
  tracker runs as from the empty store.
\<close>

lemma eviction_rule:
  "PERSISTENCE_FRAMES = 20 \<and>
   processTracking now hands dets =
     somes (outcomes dets {} hands)
       @ newHands now (set (somes (matches dets {} hands))) 0 dets \<and>
   (\<forall>k<length hands.
      (outcomes dets {} hands ! k = None \<longleftrightarrow>
         matches dets {} hands ! k = None \<and> 20 < framesMissing (hands ! k) + 1)) \<and>
   (\<forall>k<length hands. \<forall>h'. outcomes dets {} hands ! k = Some h' \<longrightarrow>
      hand_id h' = hand_id (hands ! k) \<and>
      framesMissing h' =
        (if matches dets {} hands ! k = None then framesMissing (hands ! k) + 1 else 0)) \<and>
   ((\<forall>h\<in>set hands. framesMissing h = 0) \<and> length clocks \<le> 20 \<longrightarrow>
      run hands (map (\<lambda>now. (now, [])) clocks) = map (missingHand ^^ length clocks) hands \<and>
      (\<forall>h\<in>set hands. framesMissing ((missingHand ^^ length clocks) h) = length clocks \<and>
         hand_id ((missingHand ^^ length clocks) h) = hand_id h)) \<and>
   ((\<forall>h\<in>set hands. framesMissing h \<le> 20) \<and> 21 \<le> length clocks \<longrightarrow>
      run hands (map (\<lambda>now. (now, [])) clocks) = [] \<and>
      run hands (map (\<lambda>now. (now, [])) clocks @ frames) = run [] frames \<and>
      (\<forall>h'\<in>set (run hands (map (\<lambda>now. (now, [])) clocks @ frames)).
         \<exists>f\<in>set frames. \<exists>idx<length (snd f). hand_id h' = fst f idx + int idx))"
proof (intro conjI allI impI)
  show "PERSISTENCE_FRAMES = 20" by (rule PERSISTENCE_FRAMES_def)
  show "processTracking now hands dets =
     somes (outcomes dets {} hands)
       @ newHands now (set (somes (matches dets {} hands))) 0 dets"
    by (rule processTracking_decomp)
next
  fix k assume k: "k < length hands"
  show "outcomes dets {} hands ! k = None \<longleftrightarrow>
         matches dets {} hands ! k = None \<and> 20 < framesMissing (hands ! k) + 1"
    using outcome_None_iff[of dets "hands ! k" "matches dets {} hands ! k"]
    by (simp add: outcomes_nth[OF k] PERSISTENCE_FRAMES_def)
next
  fix k h' assume k: "k < length hands" and o: "outcomes dets {} hands ! k = Some h'"
  from o have "outcome dets (hands ! k) (matches dets {} hands ! k) = Some h'"
    by (simp add: outcomes_nth[OF k])
  from outcome_Some[OF this]
  show "hand_id h' = hand_id (hands ! k)"
    and "framesMissing h' =
        (if matches dets {} hands ! k = None then framesMissing (hands ! k) + 1 else 0)"
    by simp_all
next
  assume a: "(\<forall>h\<in>set hands. framesMissing h = 0) \<and> length clocks \<le> 20"
  then show "run hands (map (\<lambda>now. (now, [])) clocks) = map (missingHand ^^ length clocks) hands"
    by (simp add: run_all_kept PERSISTENCE_FRAMES_def)
  from a show "\<forall>h\<in>set hands. framesMissing ((missingHand ^^ length clocks) h) = length clocks \<and>
         hand_id ((missingHand ^^ length clocks) h) = hand_id h"
    by (simp add: framesMissing_coast hand_id_coast)
next
  assume a: "(\<forall>h\<in>set hands. framesMissing h \<le> 20) \<and> 21 \<le> length clocks"
  then have b: "\<forall>h\<in>set hands. framesMissing h \<le> PERSISTENCE_FRAMES"
    and c: "PERSISTENCE_FRAMES < length clocks"
    by (simp_all add: PERSISTENCE_FRAMES_def)
  from run_all_evicted[OF b c, of "[]"]
  show "run hands (map (\<lambda>now. (now, [])) clocks) = []" by (simp add: run_Nil)
  show e: "run hands (map (\<lambda>now. (now, [])) clocks @ frames) = run [] frames"
    by (rule run_all_evicted[OF b c])
  show "\<forall>h'\<in>set (run hands (map (\<lambda>now. (now, [])) clocks @ frames)).
         \<exists>f\<in>set frames. \<exists>idx<length (snd f). hand_id h' = fst f idx + int idx"
  proof
    fix h' assume "h' \<in> set (run hands (map (\<lambda>now. (now, [])) clocks @ frames))"
    then have "h' \<in> set (run [] frames)" by (simp add: e)
    from run_ids[OF this]
    show "\<exists>f\<in>set frames. \<exists>idx<length (snd f). hand_id h' = fst f idx + int idx" by simp
  qed
qed

text \<open>
  Claim C2. The eviction rule is as the claim says (lemma \<open>eviction_rule\<close>): a track is
  dropped on its 21st consecutive unmatched tick, not on the 20th. But a dropped track can
  come back under its old id. The id of a new track is the clock reading at its creation
  plus the index of its detection, and nothing remembers the ids the tracker has given out.
  In the run below the first tick reads the clock at 1000 and creates the track
  \<open>hand_a\<close> with id 1000; 20 ticks without a detection keep it, the 21st drops it and the
  store is empty; then a tick reads the clock at 1000 again and gets a detection at the old
  location. The store is \<open>[hand_a]\<close> again: a track with the id 1000 of the dropped one,
  at its location.
\<close>

theorem evicted_id_comes_back:
  "run [] [(steady 1000, [det_a])] = [hand_a] \<and>
   hand_id hand_a = 1000 \<and>
   run [hand_a] (replicate 20 (steady 1001, [])) = [(missingHand ^^ 20) hand_a] \<and>
   hand_id ((missingHand ^^ 20) hand_a) = 1000 \<and>
   run [hand_a] (replicate 21 (steady 1001, [])) = [] \<and>
   run [] ((steady 1000, [det_a]) # replicate 21 (steady 1001, []) @ [(steady 1000, [det_a])])
     = [hand_a]"
proof -
  have fm: "framesMissing hand_a = 0" and i: "hand_id hand_a = 1000"
    by (simp_all add: hand_a_def)
  have create: "run [] [(steady 1000, [det_a])] = [hand_a]"
    by (simp add: run_Cons run_Nil tick_create_a)
  have frames: "replicate n (steady 1001, []) = map (\<lambda>now. (now, [])) (replicate n (steady 1001))"
    for n :: nat
    by simp
  have kept: "run [hand_a] (replicate 20 (steady 1001, [])) = [(missingHand ^^ 20) hand_a]"
    unfolding frames using run_all_kept[of "[hand_a]" "replicate 20 (steady 1001)"] fm
    by (simp add: PERSISTENCE_FRAMES_def)
  have b: "\<forall>h\<in>set [hand_a]. framesMissing h \<le> PERSISTENCE_FRAMES" using fm by simp
  have c: "PERSISTENCE_FRAMES < length (replicate 21 (steady 1001))"
    by (simp add: PERSISTENCE_FRAMES_def)
  have gone: "run [hand_a] (replicate 21 (steady 1001, [])) = []"
    unfolding frames using run_all_evicted[OF b c, of "[]"] by (simp add: run_Nil)
  have again: "run [hand_a] (replicate 21 (steady 1001, []) @ [(steady 1000, [det_a])]) = [hand_a]"
    unfolding frames using run_all_evicted[OF b c, of "[(steady 1000, [det_a])]"] create
    by simp
  have whole: "run [] ((steady 1000, [det_a]) # replicate 21 (steady 1001, [])
      @ [(steady 1000, [det_a])]) = [hand_a]"
    using again by (simp only: run_Cons tick_create_a)
  from create i kept hand_id_coast[of 20 hand_a] gone whole show ?thesis by simp
qed

subsection \<open>Order of the store and ids\<close>

lemma subseq_sorted_wrt: "subseq xs ys \<Longrightarrow> sorted_wrt P ys \<Longrightarrow> sorted_wrt P xs"
proof (induction rule: list_emb.induct)
  case (list_emb_Nil ys)
  show ?case by simp
next
  case (list_emb_Cons xs ys y)
  then show ?case by simp
next
  case (list_emb_Cons2 x y xs ys)
  then have "set xs \<subseteq> set ys" by (auto dest: list_emb_set)
  with list_emb_Cons2 show ?case by auto
qed

lemma subseq_distinct_ids: "subseq xs ys \<Longrightarrow> distinct ys \<Longrightarrow> distinct xs"
proof (induction rule: list_emb.induct)
  case (list_emb_Nil ys)
  show ?case by simp
next
  case (list_emb_Cons xs ys y)
  then show ?case by simp
next
  case (list_emb_Cons2 x y xs ys)
  then have "set xs \<subseteq> set ys" by (auto dest: list_emb_set)
  with list_emb_Cons2 show ?case by auto
qed

lemma survivors_ids_subseq:
  "subseq (map hand_id (somes (outcomes ds used hands))) (map hand_id hands)"
proof (induction hands arbitrary: used)
  case Nil
  show ?case by (simp add: outcomes_Nil)
next
  case (Cons hand rest)
  let ?used' = "case bestMatch hand used ds of Some i \<Rightarrow> insert i used | None \<Rightarrow> used"
  have IH: "subseq (map hand_id (somes (outcomes ds ?used' rest))) (map hand_id rest)"
    by (rule Cons.IH)
  show ?case
  proof (cases "outcome ds hand (bestMatch hand used ds)")
    case None
    have "subseq (map hand_id (somes (outcomes ds ?used' rest))) (hand_id hand # map hand_id rest)"
      using IH by (rule list_emb_Cons)
    with None show ?thesis by (simp add: outcomes_Cons)
  next
    case (Some h')
    from outcome_Some[OF Some] have i: "hand_id h' = hand_id hand" by simp
    have "subseq (hand_id hand # map hand_id (somes (outcomes ds ?used' rest)))
            (hand_id hand # map hand_id rest)"
      using IH by (rule subseq_Cons2)
    with Some i show ?thesis by (simp add: outcomes_Cons)
  qed
qed

lemma newHands_filter:
  "newHands now used k ds =
     map (\<lambda>j. newHand (now j) j (ds ! (j - k))) (filter (\<lambda>j. j \<notin> used) [k..<k + length ds])"
proof (induction ds arbitrary: k)
  case Nil
  show ?case by simp
next
  case (Cons det rest)
  have up: "[k..<k + length (det # rest)] = k # [Suc k..<Suc k + length rest]"
    using upt_conv_Cons[of k "k + Suc (length rest)"] by simp
  have m: "map (\<lambda>j. newHand (now j) j ((det # rest) ! (j - k)))
             (filter (\<lambda>j. j \<notin> used) [Suc k..<Suc k + length rest])
         = map (\<lambda>j. newHand (now j) j (rest ! (j - Suc k)))
             (filter (\<lambda>j. j \<notin> used) [Suc k..<Suc k + length rest])"
  proof (rule map_cong[OF refl])
    fix j assume "j \<in> set (filter (\<lambda>j. j \<notin> used) [Suc k..<Suc k + length rest])"
    then have "k < j" by auto
    then have "j - k = Suc (j - Suc k)" by simp
    then show "newHand (now j) j ((det # rest) ! (j - k)) = newHand (now j) j (rest ! (j - Suc k))"
      by simp
  qed
  show ?case unfolding up using m Cons.IH[of "Suc k"] by simp
qed

lemma newHands_from_0:
  "newHands now used 0 ds =
     map (\<lambda>j. newHand (now j) j (ds ! j)) (filter (\<lambda>j. j \<notin> used) [0..<length ds])"
  using newHands_filter[of now used 0 ds] by simp

text \<open>
  The ids stay pairwise distinct in a tick whose clock readings are above every id of the
  store and do not go down from one creation to the next.
\<close>

lemma tick_ids_distinct:
  assumes "distinct (map hand_id hands)"
    and "\<forall>h\<in>set hands. \<forall>j<length ds. hand_id h < now j"
    and "\<forall>j<length ds. \<forall>j'<length ds. j \<le> j' \<longrightarrow> now j \<le> now j'"
  shows "distinct (map hand_id (processTracking now hands ds))"
proof -
  let ?S = "somes (outcomes ds {} hands)"
  let ?U = "set (somes (matches ds {} hands))"
  let ?J = "filter (\<lambda>j. j \<notin> ?U) [0..<length ds]"
  have s: "subseq (map hand_id ?S) (map hand_id hands)" by (rule survivors_ids_subseq)
  then have d1: "distinct (map hand_id ?S)" using assms(1) by (rule subseq_distinct_ids)
  have ids: "map hand_id (newHands now ?U 0 ds) = map (\<lambda>j. now j + int j) ?J"
    by (simp add: newHands_from_0 hand_id_newHand comp_def)
  have inj: "inj_on (\<lambda>j. now j + int j) (set ?J)"
  proof (rule inj_onI)
    fix a b assume a: "a \<in> set ?J" and b: "b \<in> set ?J"
      and e: "now a + int a = now b + int b"
    from a b have la: "a < length ds" and lb: "b < length ds" by simp_all
    show "a = b"
    proof (rule ccontr)
      assume "a \<noteq> b"
      then consider "a < b" | "b < a" by linarith
      then show False
      proof cases
        case 1
        with assms(3) la lb have "now a \<le> now b" by simp
        with 1 e show False by simp
      next
        case 2
        with assms(3) la lb have "now b \<le> now a" by simp
        with 2 e show False by simp
      qed
    qed
  qed
  have "distinct ?J" by simp
  with inj have "distinct (map (\<lambda>j. now j + int j) ?J)" by (simp add: distinct_map)
  with ids have d2: "distinct (map hand_id (newHands now ?U 0 ds))" by simp
  have "set (map hand_id ?S) \<subseteq> set (map hand_id hands)"
  proof
    fix i assume "i \<in> set (map hand_id ?S)"
    then obtain h' where h': "h' \<in> set ?S" "i = hand_id h'" by auto
    from in_somes_outcomes[OF h'(1)] h'(2) show "i \<in> set (map hand_id hands)"
      by (auto simp add: hand_id_matchedHand hand_id_missingHand)
  qed
  then have old: "\<forall>i\<in>set (map hand_id ?S). \<forall>j<length ds. i < now j" using assms(2) by auto
  have "set (map hand_id ?S) \<inter> set (map hand_id (newHands now ?U 0 ds)) = {}"
  proof (rule ccontr)
    assume "set (map hand_id ?S) \<inter> set (map hand_id (newHands now ?U 0 ds)) \<noteq> {}"
    then obtain i where i: "i \<in> set (map hand_id ?S)"
      and n: "i \<in> set (map (\<lambda>j. now j + int j) ?J)" using ids by auto
    from n obtain j where j: "j < length ds" "i = now j + int j" by auto
    from old i j(1) have "i < now j" by blast
    with j(2) show False by simp
  qed
  with d1 d2 show ?thesis by (simp add: processTracking_decomp)
qed

subsection \<open>Tracks stay in the order of their creation\<close>

lemma subseq_set_subset: "subseq xs ys \<Longrightarrow> set xs \<subseteq> set ys"
  by (induction rule: list_emb.induct) auto

lemma aged_erase_aux:
  "map snd (somes (map2 (\<lambda>(born, hand) m. map_option (Pair born) (outcome ds hand m)) store ms))
     = somes (map2 (outcome ds) (map snd store) ms)"
proof (induction store arbitrary: ms)
  case Nil
  show ?case by simp
next
  case (Cons p store)
  obtain born hand where p: "p = (born, hand)" by (cases p)
  show ?case
  proof (cases ms)
    case Nil
    then show ?thesis by simp
  next
    case (Cons m ms')
    show ?thesis
      by (cases "outcome ds hand m") (simp_all add: Cons p Cons.IH)
  qed
qed

lemma aged_births_aux:
  "subseq (map fst (somes (map2 (\<lambda>(born, hand) m. map_option (Pair born) (outcome ds hand m)) store ms)))
     (map fst store)"
proof (induction store arbitrary: ms)
  case Nil
  show ?case by simp
next
  case (Cons p store)
  obtain born hand where p: "p = (born, hand)" by (cases p)
  show ?case
  proof (cases ms)
    case Nil
    then show ?thesis by simp
  next
    case (Cons m ms')
    have IH: "subseq (map fst (somes (map2 (\<lambda>(born, hand) m.
        map_option (Pair born) (outcome ds hand m)) store ms'))) (map fst store)"
      by (rule Cons.IH)
    show ?thesis
    proof (cases "outcome ds hand m")
      case None
      from IH have "subseq (map fst (somes (map2 (\<lambda>(born, hand) m.
        map_option (Pair born) (outcome ds hand m)) store ms'))) (born # map fst store)"
        by (rule list_emb_Cons)
      with None show ?thesis by (simp add: Cons p)
    next
      case (Some h')
      with IH show ?thesis by (simp add: Cons p)
    qed
  qed
qed

lemma agedTick_erase:
  "map snd (agedTick t now store ds) = processTracking now (map snd store) ds"
  by (simp add: agedTick_def Let_def aged_erase_aux processTracking_decomp outcomes_def comp_def)

lemma agedTick_sorted:
  assumes "sorted (map fst store)" and "\<forall>b\<in>set (map fst store). b \<le> t"
  shows "sorted (map fst (agedTick t now store ds)) \<and>
         (\<forall>b\<in>set (map fst (agedTick t now store ds)). b \<le> Suc t)"
proof -
  let ?ms = "matches ds {} (map snd store)"
  let ?K = "map fst (somes (map2 (\<lambda>(born, hand) m. map_option (Pair born) (outcome ds hand m)) store ?ms))"
  let ?N = "newHands now (set (somes ?ms)) 0 ds"
  have eq: "map fst (agedTick t now store ds) = ?K @ replicate (length ?N) t"
    by (simp add: agedTick_def Let_def comp_def map_replicate_const)
  have sub: "subseq ?K (map fst store)" by (rule aged_births_aux)
  then have sK: "sorted ?K" using assms(1) by (rule subseq_sorted_wrt)
  have "set ?K \<subseteq> set (map fst store)" using sub by (rule subseq_set_subset)
  with assms(2) have bK: "\<forall>b\<in>set ?K. b \<le> t" by blast
  from sK bK show ?thesis unfolding eq by (auto simp add: sorted_append)
qed

lemma agedRun_erase:
  "map snd (agedRun t store frames) = run (map snd store) frames"
proof (induction frames arbitrary: t store)
  case Nil
  show ?case by (simp add: run_Nil)
next
  case (Cons f frames)
  obtain now ds where f: "f = (now, ds)" by (cases f)
  show ?case by (simp add: f Cons.IH agedTick_erase run_Cons)
qed

lemma agedRun_sorted:
  "sorted (map fst store) \<Longrightarrow> \<forall>b\<in>set (map fst store). b \<le> t \<Longrightarrow>
   sorted (map fst (agedRun t store frames))"
proof (induction frames arbitrary: t store)
  case Nil
  then show ?case by simp
next
  case (Cons f frames)
  obtain now ds where f: "f = (now, ds)" by (cases f)
  from agedTick_sorted[OF Cons.prems, of now ds]
  have "sorted (map fst (agedTick t now store ds))"
    and "\<forall>b\<in>set (map fst (agedTick t now store ds)). b \<le> Suc t" by blast+
  from Cons.IH[OF this] show ?case by (simp add: f)
qed

text \<open>
  Claim C10. The next store is the list of the outcomes of the tracks of the previous store,
  position by position and with the dropped tracks left out, followed by the tracks created
  for the unused detections in the order of the detection list. So the surviving tracks keep
  their relative order (their ids are a subsequence of the ids of the previous store), and
  in every store reached from the empty store the tracks stand in the order of the ticks
  that created them, oldest first. The first track of the store is matched with no detection
  used, and the tracks after it with the detections the earlier ones left.
\<close>

theorem store_order_preserved:
  "processTracking now hands dets =
     somes (outcomes dets {} hands)
       @ newHands now (set (somes (matches dets {} hands))) 0 dets \<and>
   length (outcomes dets {} hands) = length hands \<and>
   (\<forall>k<length hands.
      outcomes dets {} hands ! k = outcome dets (hands ! k) (matches dets {} hands ! k) \<and>
      (\<forall>h'. outcomes dets {} hands ! k = Some h' \<longrightarrow> hand_id h' = hand_id (hands ! k))) \<and>
   subseq (map hand_id (somes (outcomes dets {} hands))) (map hand_id hands) \<and>
   newHands now used 0 dets =
     map (\<lambda>j. newHand (now j) j (dets ! j)) (filter (\<lambda>j. j \<notin> used) [0..<length dets]) \<and>
   map snd (agedRun 0 [] frames) = run [] frames \<and>
   sorted (map fst (agedRun 0 [] frames)) \<and>
   matches dets {} (hand # rest) =
     bestMatch hand {} dets
       # matches dets (case bestMatch hand {} dets of Some i \<Rightarrow> {i} | None \<Rightarrow> {}) rest"
proof (intro conjI allI impI)
  show "processTracking now hands dets =
     somes (outcomes dets {} hands)
       @ newHands now (set (somes (matches dets {} hands))) 0 dets"
    by (rule processTracking_decomp)
  show "length (outcomes dets {} hands) = length hands" by (rule length_outcomes)
  show "subseq (map hand_id (somes (outcomes dets {} hands))) (map hand_id hands)"
    by (rule survivors_ids_subseq)
  show "newHands now used 0 dets =
     map (\<lambda>j. newHand (now j) j (dets ! j)) (filter (\<lambda>j. j \<notin> used) [0..<length dets])"
    by (rule newHands_from_0)
  show "map snd (agedRun 0 [] frames) = run [] frames"
    using agedRun_erase[of 0 "[]" frames] by simp
  show "sorted (map fst (agedRun 0 [] frames))"
    by (rule agedRun_sorted) simp_all
  show "matches dets {} (hand # rest) =
     bestMatch hand {} dets
       # matches dets (case bestMatch hand {} dets of Some i \<Rightarrow> {i} | None \<Rightarrow> {}) rest"
    by (simp split: option.splits)
next
  fix k assume k: "k < length hands"
  show "outcomes dets {} hands ! k = outcome dets (hands ! k) (matches dets {} hands ! k)"
    by (rule outcomes_nth[OF k])
  fix h' assume "outcomes dets {} hands ! k = Some h'"
  then have "outcome dets (hands ! k) (matches dets {} hands ! k) = Some h'"
    by (simp add: outcomes_nth[OF k])
  from outcome_Some[OF this] show "hand_id h' = hand_id (hands ! k)" by simp
qed

subsection \<open>Worked runs, the clock and new tracks\<close>

lemma newHand_a: "newHand 1000 0 det_a = hand_a"
  by (simp add: newHand_def hand_a_def det_a_def)

lemma tick_second_hand:
  "processTracking now [hand_a] [det_b, det_a] =
     [matchedHand hand_a det_a, newHand (now 0) 0 det_b]"
  by (simp add: processTracking_def bestMatch_a)

lemma agedRun_two_frames:
  "agedRun 0 [] [(steady 1000, [det_a]), (steady 2000, [det_b, det_a])] =
     [(0, matchedHand hand_a det_a), (1, newHand 2000 0 det_b)]"
  by (simp add: agedTick_def Let_def steady_def newHand_a bestMatch_a outcome_def)

theorem store_order_preserved_witness:
  "map snd (agedRun 0 [] [(steady 1000, [det_a]), (steady 2000, [det_b, det_a])]) =
     run [] [(steady 1000, [det_a]), (steady 2000, [det_b, det_a])] \<and>
   map fst (agedRun 0 [] [(steady 1000, [det_a]), (steady 2000, [det_b, det_a])]) = [0, 1] \<and>
   sorted (map fst (agedRun 0 [] [(steady 1000, [det_a]), (steady 2000, [det_b, det_a])])) \<and>
   outcomes [det_a] {} [hand_a, hand_b] ! 0 = Some (matchedHand hand_a det_a) \<and>
   hand_id (matchedHand hand_a det_a) = hand_id ([hand_a, hand_b] ! 0)"
proof -
  note t = store_order_preserved[where hands = "[hand_a, hand_b]" and dets = "[det_a]"
      and frames = "[(steady 1000, [det_a]), (steady 2000, [det_b, det_a])]" and now = "steady 0" and used = "{}"
      and hand = hand_a and rest = "[]"]
  from t have e: "map snd (agedRun 0 [] [(steady 1000, [det_a]), (steady 2000, [det_b, det_a])]) =
     run [] [(steady 1000, [det_a]), (steady 2000, [det_b, det_a])]"
    and s: "sorted (map fst (agedRun 0 [] [(steady 1000, [det_a]), (steady 2000, [det_b, det_a])]))"
    by blast+
  have b: "map fst (agedRun 0 [] [(steady 1000, [det_a]), (steady 2000, [det_b, det_a])]) = [0, 1]"
    unfolding agedRun_two_frames by simp
  have o: "outcomes [det_a] {} [hand_a, hand_b] ! 0 = Some (matchedHand hand_a det_a)"
    unfolding outcomes_def matches_ab by (simp add: outcome_def)
  have k: "(0::nat) < length [hand_a, hand_b]" by simp
  from t have "\<forall>k<length [hand_a, hand_b].
      outcomes [det_a] {} [hand_a, hand_b] ! k =
        outcome [det_a] ([hand_a, hand_b] ! k) (matches [det_a] {} [hand_a, hand_b] ! k) \<and>
      (\<forall>h'. outcomes [det_a] {} [hand_a, hand_b] ! k = Some h' \<longrightarrow>
         hand_id h' = hand_id ([hand_a, hand_b] ! k))"
    by blast
  with k o have i: "hand_id (matchedHand hand_a det_a) = hand_id ([hand_a, hand_b] ! 0)"
    by blast
  from e b s o i show ?thesis by blast
qed

text \<open>
  Claim C9. A track keeps its id for as long as it is in the store (lemmas
  \<open>hand_id_matchedHand\<close>, \<open>hand_id_missingHand\<close>), and a tick whose clock readings are
  above every id of the store and do not go down within the tick leaves the ids pairwise
  distinct (lemma \<open>tick_ids_distinct\<close>). But
  the id of a new track is the clock reading at its creation plus the index of its detection, and nothing
  compares it with the ids in the store. The run below starts from the empty store: the
  first tick, at clock reading 1000, creates a track for its only detection; the second
  tick reads 1000 again and gets a new detection listed before the old one. The old track
  takes the detection at index 1, the new detection at index 0 gets the id 1000 + 0, and
  the store holds two tracks with the id 1000.
\<close>

theorem id_collision_same_clock_reading:
  "run [] [(steady 1000, [det_a]), (steady 1000, [det_b, det_a])] =
     [matchedHand hand_a det_a, newHand 1000 0 det_b] \<and>
   map hand_id (run [] [(steady 1000, [det_a]), (steady 1000, [det_b, det_a])]) = [1000, 1000] \<and>
   \<not> distinct (map hand_id (run [] [(steady 1000, [det_a]), (steady 1000, [det_b, det_a])]))"
proof -
  have r: "run [] [(steady 1000, [det_a]), (steady 1000, [det_b, det_a])] =
     [matchedHand hand_a det_a, newHand 1000 0 det_b]"
    by (simp add: run_Cons run_Nil tick_create_a tick_second_hand steady_apply)
  have i: "map hand_id [matchedHand hand_a det_a, newHand 1000 0 det_b] = [1000, 1000]"
    by (simp add: hand_id_matchedHand hand_id_newHand hand_a_def)
  from r i show ?thesis by simp
qed

lemma newHand_erase_id: "(newHand r idx det)\<lparr>hand_id := 0\<rparr> = (newHand r' idx det)\<lparr>hand_id := 0\<rparr>"
  by (simp add: newHand_def)

lemma newHands_erase_ids:
  "map (\<lambda>h. h\<lparr>hand_id := 0\<rparr>) (newHands now used idx dets) =
   map (\<lambda>h. h\<lparr>hand_id := 0\<rparr>) (newHands now' used idx dets)"
  by (induction dets arbitrary: idx) (simp_all add: newHand_erase_id)

lemma newHands_readings:
  "\<forall>j<length dets. idx + j \<notin> used \<longrightarrow> now (idx + j) = now' (idx + j) \<Longrightarrow>
   newHands now used idx dets = newHands now' used idx dets"
proof (induction dets arbitrary: idx)
  case Nil
  show ?case by simp
next
  case (Cons det rest)
  have "\<forall>j<length rest. Suc idx + j \<notin> used \<longrightarrow> now (Suc idx + j) = now' (Suc idx + j)"
  proof (intro allI impI)
    fix j assume "j < length rest" "Suc idx + j \<notin> used"
    then have "Suc j < length (det # rest)" "idx + Suc j \<notin> used" by simp_all
    with Cons.prems have "now (idx + Suc j) = now' (idx + Suc j)" by blast
    then show "now (Suc idx + j) = now' (Suc idx + j)" by simp
  qed
  from Cons.IH[OF this] have r: "newHands now used (Suc idx) rest = newHands now' used (Suc idx) rest" .
  from Cons.prems have "idx \<notin> used \<longrightarrow> now idx = now' idx" by force
  with r show ?case by simp
qed

text \<open>
  The store and the detections do not determine the next store: the same pair gives two
  different stores at two clock readings.
\<close>

theorem tick_depends_on_clock_counterexample:
  "processTracking (steady 1000) [] [det_a] \<noteq> processTracking (steady 1001) [] [det_a]"
  by (simp add: processTracking_def newHand_def steady_def)

text \<open>
  Claim C1, as amended. A tick is a function of the previous store, the detections and the
  clock readings it takes, and of nothing else. It reads the clock once for every track it
  creates, and the reading enters only the id of that track: the hands pushed by the first
  loop do not depend on the clock, the track created for the unused detection at index
  \<open>j\<close> has the id \<open>now j + j\<close>, two clocks that agree at the indices of the unused
  detections give the same next store, and with the ids erased the next store is the same
  for all clocks.
\<close>

theorem tick_function_of_store_detections_clock:
  "processTracking now hands dets =
     somes (outcomes dets {} hands)
       @ newHands now (set (somes (matches dets {} hands))) 0 dets \<and>
   newHands now used 0 dets =
     map (\<lambda>j. newHand (now j) j (dets ! j)) (filter (\<lambda>j. j \<notin> used) [0..<length dets]) \<and>
   hand_id (newHand r idx det) = r + int idx \<and>
   (newHand r idx det)\<lparr>hand_id := 0\<rparr> = (newHand r' idx det)\<lparr>hand_id := 0\<rparr> \<and>
   ((\<forall>j<length dets. j \<notin> set (somes (matches dets {} hands)) \<longrightarrow> now j = now' j) \<longrightarrow>
      processTracking now hands dets = processTracking now' hands dets) \<and>
   map (\<lambda>h. h\<lparr>hand_id := 0\<rparr>) (processTracking now hands dets) =
     map (\<lambda>h. h\<lparr>hand_id := 0\<rparr>) (processTracking now' hands dets)"
proof (intro conjI impI)
  show "processTracking now hands dets =
     somes (outcomes dets {} hands)
       @ newHands now (set (somes (matches dets {} hands))) 0 dets"
    by (rule processTracking_decomp)
  show "newHands now used 0 dets =
     map (\<lambda>j. newHand (now j) j (dets ! j)) (filter (\<lambda>j. j \<notin> used) [0..<length dets])"
    by (rule newHands_from_0)
  show "hand_id (newHand r idx det) = r + int idx" by (rule hand_id_newHand)
  show "(newHand r idx det)\<lparr>hand_id := 0\<rparr> = (newHand r' idx det)\<lparr>hand_id := 0\<rparr>"
    by (rule newHand_erase_id)
  show "map (\<lambda>h. h\<lparr>hand_id := 0\<rparr>) (processTracking now hands dets) =
     map (\<lambda>h. h\<lparr>hand_id := 0\<rparr>) (processTracking now' hands dets)"
    by (simp add: processTracking_decomp newHands_erase_ids[of now _ _ _ now'])
next
  assume "\<forall>j<length dets. j \<notin> set (somes (matches dets {} hands)) \<longrightarrow> now j = now' j"
  then have "\<forall>j<length dets. 0 + j \<notin> set (somes (matches dets {} hands)) \<longrightarrow>
      now (0 + j) = now' (0 + j)" by simp
  from newHands_readings[OF this]
  show "processTracking now hands dets = processTracking now' hands dets"
    by (simp add: processTracking_decomp)
qed

text \<open>
  Two clocks that differ only at the index of a detection the old track has taken: the
  created track and the whole next store are the same.
\<close>

theorem tick_function_of_store_detections_clock_witness:
  "bestMatch hand_a {} [det_b, det_a] = Some 1 \<and>
   (\<lambda>j::nat. if j = 1 then 7 else 1000) 0 = steady 1000 0 \<and>
   processTracking (\<lambda>j::nat. if j = 1 then 7 else 1000) [hand_a] [det_b, det_a] =
     processTracking (steady 1000) [hand_a] [det_b, det_a]"
proof -
  have b: "bestMatch hand_a {} [det_b, det_a] = Some 1" by (rule bestMatch_a)
  have m: "matches [det_b, det_a] {} [hand_a] = [Some 1]" by (simp add: bestMatch_a)
  have r: "(\<lambda>j::nat. if j = 1 then 7 else 1000) 0 = steady 1000 0" by (simp add: steady_def)
  have h: "\<forall>j<length [det_b, det_a]. j \<notin> set (somes (matches [det_b, det_a] {} [hand_a])) \<longrightarrow>
      (\<lambda>j::nat. if j = 1 then 7 else 1000) j = steady 1000 j"
    unfolding m by (simp add: steady_def)
  have t: "(\<forall>j<length [det_b, det_a]. j \<notin> set (somes (matches [det_b, det_a] {} [hand_a])) \<longrightarrow>
      (\<lambda>j::nat. if j = 1 then 7 else 1000) j = steady 1000 j) \<longrightarrow>
      processTracking (\<lambda>j::nat. if j = 1 then 7 else 1000) [hand_a] [det_b, det_a] =
        processTracking (steady 1000) [hand_a] [det_b, det_a]"
    by (rule tick_function_of_store_detections_clock[where now = "\<lambda>j::nat. if j = 1 then 7 else 1000"
          and now' = "steady 1000" and hands = "[hand_a]" and dets = "[det_b, det_a]"
          and used = "{}" and r = 0 and r' = 0 and idx = 0 and det = det_a,
          THEN conjunct2, THEN conjunct2, THEN conjunct2, THEN conjunct2, THEN conjunct1])
  from t h have "processTracking (\<lambda>j::nat. if j = 1 then 7 else 1000) [hand_a] [det_b, det_a] =
        processTracking (steady 1000) [hand_a] [det_b, det_a]" by (rule mp)
  with b r show ?thesis by blast
qed

text \<open>
  A tick on the empty store matches no track, and the track it creates for a detection has
  \<open>framesMissing = 0\<close>.
\<close>

theorem new_track_unmatched_counterexample:
  "processTracking (steady 1000) [] [det_a] = [hand_a] \<and> framesMissing hand_a = 0 \<and>
   matches [det_a] {} [] = []"
  by (simp add: tick_create_a hand_a_def)

text \<open>
  Claim C8, as amended. After a tick, a track of the store has \<open>framesMissing = 0\<close> exactly
  when the tick matched it or created it: for a track carried over from the previous store
  \<open>framesMissing\<close> is 0 exactly when the track was matched in this tick, and every track
  the tick creates has \<open>framesMissing = 0\<close>.
\<close>

theorem framesMissing_zero_iff_matched_or_created:
  "processTracking now hands dets =
     somes (outcomes dets {} hands)
       @ newHands now (set (somes (matches dets {} hands))) 0 dets \<and>
   (\<forall>k<length hands. \<forall>h'. outcomes dets {} hands ! k = Some h' \<longrightarrow>
      (framesMissing h' = 0 \<longleftrightarrow> matches dets {} hands ! k \<noteq> None)) \<and>
   (\<forall>h'\<in>set (newHands now used idx dets). framesMissing h' = 0)"
proof (intro conjI allI impI ballI)
  show "processTracking now hands dets =
     somes (outcomes dets {} hands)
       @ newHands now (set (somes (matches dets {} hands))) 0 dets"
    by (rule processTracking_decomp)
next
  fix k h' assume k: "k < length hands" and o: "outcomes dets {} hands ! k = Some h'"
  from o have "outcome dets (hands ! k) (matches dets {} hands ! k) = Some h'"
    by (simp add: outcomes_nth[OF k])
  from outcome_Some[OF this]
  show "framesMissing h' = 0 \<longleftrightarrow> matches dets {} hands ! k \<noteq> None" by simp
next
  fix h' assume "h' \<in> set (newHands now used idx dets)"
  from in_newHands[OF this] show "framesMissing h' = 0" by (auto simp add: newHand_def)
qed

theorem framesMissing_zero_iff_matched_or_created_witness:
  "matches [det_a] {} [hand_a, hand_b] = [Some 0, None] \<and>
   outcomes [det_a] {} [hand_a, hand_b] = [Some (matchedHand hand_a det_a), Some (missingHand hand_b)] \<and>
   framesMissing (matchedHand hand_a det_a) = 0 \<and>
   framesMissing (missingHand hand_b) \<noteq> 0"
proof -
  have m: "matches [det_a] {} [hand_a, hand_b] = [Some 0, None]" by (rule matches_ab)
  have fm_b: "framesMissing hand_b < PERSISTENCE_FRAMES"
    by (simp add: hand_b_def PERSISTENCE_FRAMES_def)
  have o: "outcomes [det_a] {} [hand_a, hand_b] =
      [Some (matchedHand hand_a det_a), Some (missingHand hand_b)]"
    unfolding outcomes_def matches_ab by (simp add: outcome_def fm_b)
  have t: "\<forall>k<length [hand_a, hand_b]. \<forall>h'. outcomes [det_a] {} [hand_a, hand_b] ! k = Some h' \<longrightarrow>
      (framesMissing h' = 0 \<longleftrightarrow> matches [det_a] {} [hand_a, hand_b] ! k \<noteq> None)"
    by (rule framesMissing_zero_iff_matched_or_created[where hands = "[hand_a, hand_b]"
          and dets = "[det_a]" and now = "steady 0" and used = "{}" and idx = 0,
          THEN conjunct2, THEN conjunct1])
  have k0: "(0::nat) < length [hand_a, hand_b]" and k1: "(1::nat) < length [hand_a, hand_b]"
    by simp_all
  have o0: "outcomes [det_a] {} [hand_a, hand_b] ! 0 = Some (matchedHand hand_a det_a)"
    and o1: "outcomes [det_a] {} [hand_a, hand_b] ! 1 = Some (missingHand hand_b)"
    unfolding o by simp_all
  have m0: "matches [det_a] {} [hand_a, hand_b] ! 0 \<noteq> None"
    and m1: "\<not> matches [det_a] {} [hand_a, hand_b] ! 1 \<noteq> None"
    unfolding m by simp_all
  from t k0 o0 m0 have f0: "framesMissing (matchedHand hand_a det_a) = 0" by blast
  from t k1 o1 m1 have f1: "framesMissing (missingHand hand_b) \<noteq> 0" by blast
  from m o f0 f1 show ?thesis by blast
qed

end
